theory Spec2Isabelle
  imports Main "HOL-Library.Word"
begin

unbundle bit_operations_syntax

section \<open>Data model\<close>

text \<open>
  \<open>idx_t\<close> coordinates are modelled as \<open>int\<close>: no claim depends on their overflow.
  An \<open>Indices\<close> value is modelled by its domain-dim components, indexed by the domain
  index \<open>j\<close> of the source's \<open>DOMAIN_VAR_LOOP(i, j)\<close>; the step-dim component is only
  ever copied by the code modelled here.
\<close>

type_synonym idx_t = int
type_synonym Indices = "idx_t list"

text \<open>The fields \<open>begin\<close> and \<open>end\<close> of \<open>ScanIndices\<close> are named \<open>begin_v\<close> and
  \<open>end_v\<close>.\<close>

record ScanIndices =
  begin_v :: Indices
  end_v :: Indices
  start :: Indices
  stop :: Indices
  stride :: Indices
  tile_size :: Indices
  align :: Indices
  align_ofs :: Indices

text \<open>The dimension metadata read through \<open>STATE_VARS\<close>: \<open>fold_pts\<close> and
  \<open>_cluster_pts\<close> per domain dim, and \<open>_fold_pts.is_first_inner()\<close>.\<close>

record Dims =
  fold_pts :: Indices
  cluster_pts :: Indices
  first_inner :: bool

record StencilContext =
  dims :: Dims
  rank_domain_offsets :: Indices
  check_step_conds :: bool
  thread_limit :: int

record KernelSettings =
  pico_block_sizes :: Indices
  nano_block_tile_sizes :: Indices
  force_scalar :: bool

text \<open>The compiler-generated part \<open>_bundle\<close> of a \<open>StencilBundleTempl\<close>, as far as
  the code modelled here reads it.\<close>

record StencilBundleImplT =
  bundle_is_scratch :: bool
  bundle_is_in_valid_step :: "idx_t \<Rightarrow> bool"
  bundle_is_in_valid_domain :: "Indices \<Rightarrow> bool"

section \<open>Step conditions\<close>

definition is_scratch :: "StencilBundleImplT \<Rightarrow> bool" where
  "is_scratch b = bundle_is_scratch b"

text \<open>\<open>StencilBundleTempl::is_in_valid_step\<close>.\<close>

definition is_in_valid_step :: "StencilContext \<Rightarrow> StencilBundleImplT \<Rightarrow> idx_t \<Rightarrow> bool" where
  "is_in_valid_step ctx b input_step_index =
     (\<not> check_step_conds ctx \<or> bundle_is_in_valid_step b input_step_index)"

text \<open>The \<open>for\<close> loop of \<open>Stage::is_in_valid_step\<close> over the member bundles; falling out
  of the loop returns false (the \<open>assert\<close> of a string literal never fails).\<close>

fun stage_loop :: "StencilContext \<Rightarrow> StencilBundleImplT list \<Rightarrow> idx_t \<Rightarrow> bool" where
  "stage_loop ctx [] s = False"
| "stage_loop ctx (bp # bps) s =
     (if \<not> is_scratch bp then is_in_valid_step ctx bp s else stage_loop ctx bps s)"

definition Stage_is_in_valid_step ::
  "StencilContext \<Rightarrow> StencilBundleImplT list \<Rightarrow> idx_t \<Rightarrow> bool" where
  "Stage_is_in_valid_step ctx stage input_step_index =
     (if length stage = 0 then False else stage_loop ctx stage input_step_index)"

section \<open>Helpers that are not part of the given sources\<close>

text \<open>The declaration of \<open>idx_t\<close> is not part of the given sources; YASK declares it
  as a 64-bit signed integer. Values of \<open>idx_t\<close> are modelled as integers, and every
  addition, subtraction and multiplication of the code that can leave the 64-bit range
  is written with \<open>idx_wrap\<close>, the two's-complement wrap-around. \<open>idx_fits\<close> holds of
  the integers that \<open>idx_t\<close> represents. The constants are \<open>2 ^ 63\<close> and \<open>2 ^ 64\<close>.\<close>

definition idx_wrap :: "int \<Rightarrow> idx_t" where
  "idx_wrap x = (x + 9223372036854775808) mod 18446744073709551616 - 9223372036854775808"

definition idx_fits :: "int \<Rightarrow> bool" where
  "idx_fits x \<longleftrightarrow> - 9223372036854775808 \<le> x \<and> x < 9223372036854775808"

text \<open>Modelled from the spec: \<open>idiv_flr\<close> and \<open>imod_flr\<close> (header \<open>idiv.hpp\<close>, missing)
  are the floor division and its remainder on signed integers ("floor-div",
  "signed floor-division semantics"). With a positive divisor, as everywhere in this
  code, neither leaves the range of \<open>idx_t\<close>.\<close>

definition idiv_flr :: "idx_t \<Rightarrow> idx_t \<Rightarrow> idx_t" where
  "idiv_flr a b = a div b"

definition imod_flr :: "idx_t \<Rightarrow> idx_t \<Rightarrow> idx_t" where
  "imod_flr a b = a mod b"

text \<open>Modelled from the spec: \<open>round_down_flr\<close> and \<open>round_up_flr\<close> (missing) are
  \<open>round_down_to_multiple\<close> and \<open>round_up_to_multiple\<close>, computed with the floor
  division above: the quotient times the multiple, for rounding up after adding the
  multiple less one.\<close>

definition round_down_flr :: "idx_t \<Rightarrow> idx_t \<Rightarrow> idx_t" where
  "round_down_flr a b = idx_wrap (idiv_flr a b * b)"

definition round_up_flr :: "idx_t \<Rightarrow> idx_t \<Rightarrow> idx_t" where
  "round_up_flr a b = idx_wrap (idiv_flr (idx_wrap (a + b - 1)) b * b)"

text \<open>Modelled from the spec: \<open>ScanIndices::create_inner\<close> (missing) seeds the child
  traversal; its \<open>begin\<close> and \<open>end\<close> are the \<open>start\<close> and \<open>stop\<close> of the outer
  tile, everything else is passed through.\<close>

definition create_inner :: "ScanIndices \<Rightarrow> ScanIndices" where
  "create_inner idxs = idxs\<lparr>begin_v := start idxs, end_v := stop idxs\<rparr>"

text \<open>\<open>set_from_const\<close> of \<open>Indices\<close>.\<close>

definition set_from_const :: "Indices \<Rightarrow> idx_t \<Rightarrow> Indices" where
  "set_from_const v c = replicate (length v) c"

text \<open>The bit-set helper \<open>is_bit_set(mask, j)\<close>; \<open>set_bit(mask, j)\<close> is \<^const>\<open>set_bit\<close>.\<close>

definition is_bit_set :: "'a::len word \<Rightarrow> nat \<Rightarrow> bool" where
  "is_bit_set m j = bit m j"

text \<open>Modelled from the spec: the lanes of the N-D fold are numbered in the fold-layout
  order, inner-first (the first dim has unit stride) or outer-first (the last dim has unit
  stride); \<open>unlayout\<close> gives the lane at a position and \<open>visit_all_points\<close> (both missing)
  visits the lanes in that order.\<close>

fun unlayout_inner :: "Indices \<Rightarrow> nat \<Rightarrow> Indices" where
  "unlayout_inner [] idx = []"
| "unlayout_inner (s # ss) idx = (int idx mod s) # unlayout_inner ss (nat (int idx div s))"

definition unlayout :: "bool \<Rightarrow> Indices \<Rightarrow> nat \<Rightarrow> Indices" where
  "unlayout first_inner_v sizes idx =
     (if first_inner_v then unlayout_inner sizes idx
      else rev (unlayout_inner (rev sizes) idx))"

definition visit_all_points :: "bool \<Rightarrow> Indices \<Rightarrow> Indices list" where
  "visit_all_points first_inner_v sizes =
     map (unlayout first_inner_v sizes) [0 ..< nat (prod_list sizes)]"

text \<open>Modelled from the spec: \<open>n_choose_k(n, k)\<close> counts the \<open>k\<close>-subsets of the \<open>n\<close>
  domain dims and \<open>n_choose_k_set(n, k, r)\<close> (both missing) is the \<open>r\<close>-th of them as a
  bit set with \<open>k\<close> bits set; the order of the subsets is not specified, the one chosen
  here puts the subsets without the last dim first.\<close>

fun k_subsets :: "nat \<Rightarrow> nat \<Rightarrow> nat list list" where
  "k_subsets n 0 = [[]]"
| "k_subsets 0 (Suc k) = []"
| "k_subsets (Suc n) (Suc k) = k_subsets n (Suc k) @ map (\<lambda>c. c @ [n]) (k_subsets n k)"

definition n_choose_k :: "nat \<Rightarrow> nat \<Rightarrow> nat" where
  "n_choose_k n k = length (k_subsets n k)"

definition n_choose_k_set :: "nat \<Rightarrow> nat \<Rightarrow> nat \<Rightarrow> 'a::len word" where
  "n_choose_k_set n k r = foldr set_bit (k_subsets n k ! r) 0"

section \<open>Errors and kernel calls\<close>

text \<open>An \<open>assert\<close> that fails (in a build with \<open>DEBUG\<close>) and \<open>THROW_YASK_EXCEPTION\<close>.\<close>

datatype error = assert_fail | yask_exception

text \<open>The calls into the generated kernels, in the order they are made:
  \<open>calc_scalar(cp, idx, pt)\<close>,
  \<open>calc_clusters(cp, outer, inner, thread_limit, norm_idxs)\<close> and
  \<open>calc_vectors(cp, outer, inner, thread_limit, norm_idxs, mask)\<close>.\<close>

datatype 'm call =
    calc_scalar int Indices
  | calc_clusters int int int ScanIndices
  | calc_vectors int int int ScanIndices 'm

definition nddims :: "Dims \<Rightarrow> nat" where
  "nddims d = length (fold_pts d)"

text \<open>\<open>CPTS\<close> of \<open>stencil.hpp\<close>: the product of the cluster points of the dims (the
  step-dim factor \<open>CLEN_T\<close> at its default 1).\<close>

definition CPTS :: "Dims \<Rightarrow> idx_t" where
  "CPTS d = prod_list (cluster_pts d)"

section \<open>Normalization\<close>

text \<open>The loop of \<open>normalize_indices(const Indices&)\<close> over the domain dims.\<close>

fun normalize_loop :: "Dims \<Rightarrow> Indices \<Rightarrow> nat list \<Rightarrow> Indices \<Rightarrow> error + Indices" where
  "normalize_loop d orig [] norm = Inr norm"
| "normalize_loop d orig (j # js) norm =
     (let norm = norm[j := idiv_flr (orig ! j) (fold_pts d ! j)] in
      if imod_flr (orig ! j) (fold_pts d ! j) \<noteq> 0 then Inl assert_fail
      else normalize_loop d orig js norm)"

definition normalize_indices :: "Dims \<Rightarrow> Indices \<Rightarrow> error + Indices" where
  "normalize_indices d orig =
     (if length orig \<noteq> nddims d then Inl assert_fail
      else normalize_loop d orig [0 ..< nddims d] orig)"

text \<open>\<open>normalize_indices(const ScanIndices&)\<close>.\<close>

definition normalize_indices_scan :: "Dims \<Rightarrow> ScanIndices \<Rightarrow> error + ScanIndices" where
  "normalize_indices_scan d orig =
     (case normalize_indices d (begin_v orig) of Inl e \<Rightarrow> Inl e | Inr nb \<Rightarrow>
      case normalize_indices d (end_v orig) of Inl e \<Rightarrow> Inl e | Inr ne \<Rightarrow>
      case normalize_indices d (tile_size orig) of Inl e \<Rightarrow> Inl e | Inr nt \<Rightarrow>
      case normalize_indices d (align orig) of Inl e \<Rightarrow> Inl e | Inr na \<Rightarrow>
      case normalize_indices d (stride orig) of Inl e \<Rightarrow> Inl e | Inr ns \<Rightarrow>
      Inr (orig\<lparr>begin_v := nb, start := nb, end_v := ne, stop := ne,
                 tile_size := nt, align := na, stride := ns\<rparr>))"

section \<open>The per-dim loop of \<open>calc_nano_block_opt\<close>\<close>

text \<open>The loop-local variables of one pass of the loop over the domain dims.
  The masks are \<open>idx_t\<close> values used as bit fields; they and the \<open>bit_mask_t\<close> values
  are modelled as words \<open>'a word\<close> of one width (the records take the mask type as the
  parameter \<open>'m\<close>). The declaration of \<open>bit_mask_t\<close> is not part of the given sources
  either; the width is 64 in the code and is left open here, so that what is proved
  holds at every width. \<open>>>=\<close> on the signed \<open>idx_t\<close> is the arithmetic shift. A left
  shift by the width or more, which the language leaves undefined, yields zero here; the
  theorems exclude it by bounding the number of lanes and of dims by the width.\<close>

record 'm dim_vars =
  ebgn :: idx_t
  eend :: idx_t
  fcbgn :: idx_t
  fcend :: idx_t
  fvbgn :: idx_t
  fvend :: idx_t
  ovbgn :: idx_t
  ovend :: idx_t
  do_left_fvec :: bool
  do_right_fvec :: bool
  do_left_pvec :: bool
  do_right_pvec :: bool
  pmask :: 'm
  rmask :: 'm

text \<open>Lines 540--582: the boundaries and the flags of dim \<open>j\<close>, masks still zero.\<close>

definition dim_ranges :: "StencilContext \<Rightarrow> ScanIndices \<Rightarrow> nat \<Rightarrow> 'a::len word dim_vars" where
  "dim_ranges ctx sb_idxs j =
     (let rofs = rank_domain_offsets ctx ! j;
          ebgn = idx_wrap (begin_v sb_idxs ! j - rofs);
          eend = idx_wrap (end_v sb_idxs ! j - rofs);
          cpts = cluster_pts (dims ctx) ! j;
          fcbgn = round_up_flr ebgn cpts;
          fcend = round_down_flr eend cpts;
          vpts = fold_pts (dims ctx) ! j;
          fvbgn = round_up_flr ebgn vpts;
          fvend = round_down_flr eend vpts;
          ovbgn = round_down_flr ebgn vpts;
          ovend = round_up_flr eend vpts
      in \<lparr>ebgn = ebgn, eend = eend, fcbgn = fcbgn, fcend = fcend,
          fvbgn = fvbgn, fvend = fvend, ovbgn = ovbgn, ovend = ovend,
          do_left_fvec = (fvbgn < fcbgn), do_right_fvec = (fvend > fcend),
          do_left_pvec = (ebgn < fvbgn), do_right_pvec = (eend > fvend),
          pmask = 0, rmask = 0\<rparr>)"

text \<open>The visitor passed to \<open>visit_all_points\<close>: one lane \<open>pt\<close>.\<close>

definition mask_visit ::
  "'a::len word \<Rightarrow> nat \<Rightarrow> 'a word dim_vars \<Rightarrow> 'a word \<times> 'a word \<Rightarrow> Indices \<Rightarrow> 'a word \<times> 'a word" where
  "mask_visit mbit j v m pt =
     (let pmask = signed_drop_bit 1 (fst m);
          rmask = signed_drop_bit 1 (snd m);
          pmask = (if idx_wrap (ovbgn v + pt ! j) \<ge> ebgn v then pmask OR mbit else pmask);
          rmask = (if idx_wrap (fvend v + pt ! j) < eend v then rmask OR mbit else rmask)
      in (pmask, rmask))"

text \<open>Lines 585--637: the masks of dim \<open>j\<close>.\<close>

definition build_masks :: "Dims \<Rightarrow> nat \<Rightarrow> 'a::len word dim_vars \<Rightarrow> 'a word \<times> 'a word" where
  "build_masks d j v =
     (if do_left_pvec v \<or> do_right_pvec v then
        let mbit = push_bit (nat (prod_list (fold_pts d) - 1)) 1 in
        foldl (mask_visit mbit j v) (0, 0) (visit_all_points (first_inner d) (fold_pts d))
      else (0, 0))"

text \<open>Lines 644--675: the special cases; the first component is \<open>do_clusters\<close>.\<close>

definition fixups :: "bool \<Rightarrow> 'a::len word dim_vars \<Rightarrow> error + (bool \<times> 'a word dim_vars)" where
  "fixups do_clusters_v v =
     (if do_left_pvec v \<and> do_right_pvec v \<and> ovbgn v = fvend v then
        if fvbgn v \<noteq> ovend v then Inl assert_fail
        else Inr (False,
               v\<lparr>pmask := pmask v AND rmask v, rmask := 0,
                 do_left_pvec := True, do_right_pvec := False,
                 do_left_fvec := False, do_right_fvec := False\<rparr>)
      else if fcend v \<le> fcbgn v then
        let v = v\<lparr>fcbgn := fvend v, fcend := fvend v\<rparr> in
        Inr (False,
          if do_left_fvec v \<or> do_right_fvec v
          then v\<lparr>do_left_fvec := True, do_right_fvec := False\<rparr>
          else v)
      else Inr (do_clusters_v, v))"

text \<open>The variables of \<open>calc_nano_block_opt\<close> that live across the loop.
  \<open>peel_masks\<close> and \<open>rem_masks\<close> are indexed by the domain dim.\<close>

record 'm nano_vars =
  sb_eidxs :: ScanIndices
  sb_fcidxs :: ScanIndices
  sb_fvidxs :: ScanIndices
  sb_ovidxs :: ScanIndices
  do_clusters :: bool
  do_outside_clusters :: bool
  do_left_fvecs :: 'm
  do_right_fvecs :: 'm
  do_left_pvecs :: 'm
  do_right_pvecs :: 'm
  peel_masks :: "'m list"
  rem_masks :: "'m list"

definition set_range :: "ScanIndices \<Rightarrow> nat \<Rightarrow> idx_t \<Rightarrow> idx_t \<Rightarrow> ScanIndices" where
  "set_range idxs j b e = idxs\<lparr>begin_v := (begin_v idxs)[j := b], end_v := (end_v idxs)[j := e]\<rparr>"

text \<open>Lines 677--703: saving the loop-local variables of dim \<open>j\<close>.\<close>

definition save_dim :: "'a::len word nano_vars \<Rightarrow> nat \<Rightarrow> bool \<Rightarrow> 'a word dim_vars \<Rightarrow> 'a word nano_vars" where
  "save_dim st j do_clusters_v v =
     st\<lparr>sb_eidxs := set_range (sb_eidxs st) j (ebgn v) (eend v),
        sb_fcidxs := set_range (sb_fcidxs st) j (fcbgn v) (fcend v),
        sb_fvidxs := set_range (sb_fvidxs st) j (fvbgn v) (fvend v),
        sb_ovidxs := set_range (sb_ovidxs st) j (ovbgn v) (ovend v),
        do_clusters := do_clusters_v,
        do_outside_clusters :=
          (if do_left_fvec v \<or> do_right_fvec v \<or> do_left_pvec v \<or> do_right_pvec v
           then True else do_outside_clusters st),
        do_left_fvecs :=
          (if do_left_fvec v then set_bit j (do_left_fvecs st) else do_left_fvecs st),
        do_right_fvecs :=
          (if do_right_fvec v then set_bit j (do_right_fvecs st) else do_right_fvecs st),
        do_left_pvecs :=
          (if do_left_pvec v then set_bit j (do_left_pvecs st) else do_left_pvecs st),
        do_right_pvecs :=
          (if do_right_pvec v then set_bit j (do_right_pvecs st) else do_right_pvecs st),
        peel_masks := (peel_masks st)[j := pmask v],
        rem_masks := (rem_masks st)[j := rmask v]\<rparr>"

text \<open>One pass of the loop (lines 538--705), with its assertions.\<close>

definition dim_body ::
  "StencilContext \<Rightarrow> ScanIndices \<Rightarrow> 'a::len word nano_vars \<Rightarrow> nat \<Rightarrow> error + 'a word nano_vars" where
  "dim_body ctx sb_idxs st j =
     (let v = dim_ranges ctx sb_idxs j in
      if \<not> (ovend v \<ge> ovbgn v) \<or> \<not> (ovbgn v \<le> fvbgn v) \<or> \<not> (ovend v \<ge> fvend v)
      then Inl assert_fail
      else
        let m = build_masks (dims ctx) j v;
            v = v\<lparr>pmask := fst m, rmask := snd m\<rparr> in
        if (do_left_pvec v \<and> pmask v = 0) \<or> (do_right_pvec v \<and> rmask v = 0)
        then Inl assert_fail
        else case fixups (do_clusters st) v of
               Inl e \<Rightarrow> Inl e
             | Inr (dc, v) \<Rightarrow> Inr (save_dim st j dc v))"

fun dim_loop ::
  "StencilContext \<Rightarrow> ScanIndices \<Rightarrow> nat list \<Rightarrow> 'a::len word nano_vars \<Rightarrow> error + 'a word nano_vars" where
  "dim_loop ctx sb_idxs [] st = Inr st"
| "dim_loop ctx sb_idxs (j # js) st =
     (case dim_body ctx sb_idxs st j of
        Inl e \<Rightarrow> Inl e
      | Inr st' \<Rightarrow> dim_loop ctx sb_idxs js st')"

text \<open>Lines 488--532: the state before the loop. \<open>strides_from_inner\<close> stands for
  \<open>ScanIndices::set_strides_from_inner\<close>, which is not part of the given sources: it
  yields the strides that call stores from the pico-block sizes.\<close>

definition nano_init ::
  "Dims \<Rightarrow> KernelSettings \<Rightarrow> (Indices \<Rightarrow> ScanIndices \<Rightarrow> Indices) \<Rightarrow> ScanIndices \<Rightarrow> ScanIndices" where
  "nano_init d settings strides_from_inner micro_block_idxs =
     (let sb_idxs = create_inner micro_block_idxs;
          sb_idxs = sb_idxs\<lparr>stride := strides_from_inner (pico_block_sizes settings) sb_idxs\<rparr>
      in sb_idxs\<lparr>tile_size := nano_block_tile_sizes settings\<rparr>)"

definition nano_vars_init :: "Dims \<Rightarrow> ScanIndices \<Rightarrow> 'a::len word nano_vars" where
  "nano_vars_init d sb_idxs =
     (let z = sb_idxs\<lparr>align_ofs := set_from_const (align_ofs sb_idxs) 0\<rparr> in
      \<lparr>sb_eidxs = z, sb_fcidxs = z, sb_fvidxs = z, sb_ovidxs = z,
       do_clusters = True, do_outside_clusters = False,
       do_left_fvecs = 0, do_right_fvecs = 0, do_left_pvecs = 0, do_right_pvecs = 0,
       peel_masks = replicate (nddims d) 0, rem_masks = replicate (nddims d) 0\<rparr>)"

section \<open>The dispatch of \<open>calc_nano_block_opt\<close>\<close>

text \<open>The variables of one boundary part (lines 828--841).\<close>

record 'm part_vars =
  fv_part :: ScanIndices
  pv_part :: ScanIndices
  fv_needed :: bool
  pv_needed :: bool
  pv_mask :: 'm
  nsel :: nat

text \<open>Lines 842--881: one pass of the loop over the domain dims for a part.\<close>

definition part_dim ::
  "'a::len word nano_vars \<Rightarrow> ScanIndices \<Rightarrow> ScanIndices \<Rightarrow> ScanIndices \<Rightarrow> 'a word \<Rightarrow> 'a word
     \<Rightarrow> 'a word part_vars \<Rightarrow> nat \<Rightarrow> 'a word part_vars" where
  "part_dim st norm_fcidxs norm_fvidxs norm_ovidxs cdims lr pt j =
     (if is_bit_set cdims j then
        let is_left = \<not> is_bit_set lr (nsel pt);
            pt = pt\<lparr>nsel := nsel pt + 1\<rparr> in
        if is_left then
          pt\<lparr>fv_part := set_range (fv_part pt) j (begin_v norm_fvidxs ! j) (begin_v norm_fcidxs ! j),
             fv_needed := (if \<not> is_bit_set (do_left_fvecs st) j then False else fv_needed pt),
             pv_part := set_range (pv_part pt) j (begin_v norm_ovidxs ! j) (begin_v norm_fvidxs ! j),
             pv_mask := pv_mask pt AND peel_masks st ! j,
             pv_needed := (if \<not> is_bit_set (do_left_pvecs st) j then False else pv_needed pt)\<rparr>
        else
          pt\<lparr>fv_part := set_range (fv_part pt) j (end_v norm_fcidxs ! j) (end_v norm_fvidxs ! j),
             fv_needed := (if \<not> is_bit_set (do_right_fvecs st) j then False else fv_needed pt),
             pv_part := set_range (pv_part pt) j (end_v norm_fvidxs ! j) (end_v norm_ovidxs ! j),
             pv_mask := pv_mask pt AND rem_masks st ! j,
             pv_needed := (if \<not> is_bit_set (do_right_pvecs st) j then False else pv_needed pt)\<rparr>
      else pt)"

text \<open>Lines 820--915: the body of the loop over the left-right sequences, for the combo
  \<open>cdims\<close> and the sequence \<open>lr\<close>: the part's variables after the loop over the dims, and
  the calls made for the part.\<close>

definition part_vars_of ::
  "Dims \<Rightarrow> 'a::len word nano_vars \<Rightarrow> ScanIndices \<Rightarrow> ScanIndices \<Rightarrow> ScanIndices \<Rightarrow> 'a word \<Rightarrow> 'a word
     \<Rightarrow> 'a word part_vars" where
  "part_vars_of d st norm_fcidxs norm_fvidxs norm_ovidxs cdims lr =
     foldl (part_dim st norm_fcidxs norm_fvidxs norm_ovidxs cdims lr)
       \<lparr>fv_part = norm_fcidxs, pv_part = norm_fvidxs, fv_needed = True, pv_needed = True,
        pv_mask = - 1, nsel = 0\<rparr>
       [0 ..< nddims d]"

definition part_calls :: "int \<Rightarrow> int \<Rightarrow> int \<Rightarrow> 'a::len word part_vars \<Rightarrow> 'a word call list" where
  "part_calls outer_thread_idx inner_thread_idx thread_limit_v pt =
     (if fv_needed pt
      then [calc_vectors outer_thread_idx inner_thread_idx thread_limit_v (fv_part pt) (- 1)]
      else [])
     @ (if pv_needed pt
        then [calc_vectors outer_thread_idx inner_thread_idx thread_limit_v (pv_part pt) (pv_mask pt)]
        else [])"

text \<open>Lines 780--917: the loops over \<open>k\<close>, the combos \<open>r\<close> and the sequences \<open>lr\<close>.\<close>

definition boundary_calls ::
  "Dims \<Rightarrow> int \<Rightarrow> int \<Rightarrow> int \<Rightarrow> 'a::len word nano_vars \<Rightarrow> ScanIndices \<Rightarrow> ScanIndices \<Rightarrow> ScanIndices
     \<Rightarrow> 'a word call list" where
  "boundary_calls d outer_thread_idx inner_thread_idx thread_limit_v st
       norm_fcidxs norm_fvidxs norm_ovidxs =
     concat (map (\<lambda>k.
       let ncombos = n_choose_k (nddims d) k;
           nseqs = (push_bit k 1 :: 'a word) in
       concat (map (\<lambda>r.
         let cdims = (n_choose_k_set (nddims d) k r :: 'a word) in
         concat (map (\<lambda>lr.
           part_calls outer_thread_idx inner_thread_idx thread_limit_v
             (part_vars_of d st norm_fcidxs norm_fvidxs norm_ovidxs cdims (of_nat lr)))
           [0 ..< unat nseqs]))
         [0 ..< ncombos]))
       [1 ..< Suc (nddims d)])"

text \<open>Lines 712--920: normalization and the calls, from the state after the per-dim
  loop.\<close>

definition dispatch ::
  "StencilContext \<Rightarrow> int \<Rightarrow> int \<Rightarrow> 'a::len word nano_vars \<Rightarrow> error + 'a word call list" where
  "dispatch ctx outer_thread_idx inner_thread_idx st =
     (let thread_limit_v = thread_limit ctx in
      case normalize_indices_scan (dims ctx) (sb_fcidxs st) of Inl e \<Rightarrow> Inl e
      | Inr norm_fcidxs \<Rightarrow>
        let cl = (if \<not> do_clusters st then []
                  else [calc_clusters outer_thread_idx inner_thread_idx thread_limit_v norm_fcidxs])
        in
        if \<not> do_outside_clusters st then Inr cl
        else if CPTS (dims ctx) = 1 then Inl yask_exception
        else
          case normalize_indices_scan (dims ctx) (sb_fvidxs st) of Inl e \<Rightarrow> Inl e
          | Inr norm_fvidxs \<Rightarrow>
            case normalize_indices_scan (dims ctx) (sb_ovidxs st) of Inl e \<Rightarrow> Inl e
            | Inr norm_ovidxs \<Rightarrow>
              Inr (cl @ boundary_calls (dims ctx) outer_thread_idx inner_thread_idx
                          thread_limit_v st norm_fcidxs norm_fvidxs norm_ovidxs))"

text \<open>The state after the per-dim loop.\<close>

definition nano_vars_of ::
  "StencilContext \<Rightarrow> KernelSettings \<Rightarrow> (Indices \<Rightarrow> ScanIndices \<Rightarrow> Indices) \<Rightarrow> ScanIndices
     \<Rightarrow> error + 'a::len word nano_vars" where
  "nano_vars_of ctx settings strides_from_inner micro_block_idxs =
     (let sb_idxs = nano_init (dims ctx) settings strides_from_inner micro_block_idxs in
      dim_loop ctx sb_idxs [0 ..< nddims (dims ctx)] (nano_vars_init (dims ctx) sb_idxs))"

definition calc_nano_block_opt ::
  "StencilContext \<Rightarrow> (Indices \<Rightarrow> ScanIndices \<Rightarrow> Indices) \<Rightarrow> int \<Rightarrow> int \<Rightarrow> KernelSettings
     \<Rightarrow> ScanIndices \<Rightarrow> error + 'a::len word call list" where
  "calc_nano_block_opt ctx strides_from_inner outer_thread_idx inner_thread_idx settings
       micro_block_idxs =
     (case nano_vars_of ctx settings strides_from_inner micro_block_idxs of
        Inl e \<Rightarrow> Inl e
      | Inr st \<Rightarrow> dispatch ctx outer_thread_idx inner_thread_idx st)"

section \<open>The points a kernel call writes\<close>

text \<open>Modelled from the spec: the generated kernels are not part of the given sources.
  Normalized indices address vectors rather than elements, so a call over the normalized
  range \<open>[begin, end)\<close> covers the points whose vector index (the floor division of the
  point by the fold lengths) lies in the range in every dim. \<open>calc_clusters\<close> writes all
  of them; \<open>calc_vectors\<close> writes those whose lane (the point modulo the fold lengths)
  is enabled in the lane mask, which has one bit per lane of the fold, numbered in the
  order of \<open>visit_all_points\<close>; \<open>calc_scalar\<close> writes its point.\<close>

definition in_norm_range :: "Dims \<Rightarrow> ScanIndices \<Rightarrow> Indices \<Rightarrow> bool" where
  "in_norm_range d norm_idxs p =
     (\<forall>j < nddims d. begin_v norm_idxs ! j \<le> idiv_flr (p ! j) (fold_pts d ! j)
                    \<and> idiv_flr (p ! j) (fold_pts d ! j) < end_v norm_idxs ! j)"

definition lane_of :: "Dims \<Rightarrow> Indices \<Rightarrow> Indices" where
  "lane_of d p = map (\<lambda>j. imod_flr (p ! j) (fold_pts d ! j)) [0 ..< nddims d]"

definition lane_enabled :: "Dims \<Rightarrow> 'a::len word \<Rightarrow> Indices \<Rightarrow> bool" where
  "lane_enabled d lane_mask p =
     (\<exists>idx < nat (prod_list (fold_pts d)).
        bit lane_mask idx \<and> unlayout (first_inner d) (fold_pts d) idx = lane_of d p)"

fun call_writes :: "Dims \<Rightarrow> 'a::len word call \<Rightarrow> Indices \<Rightarrow> bool" where
  "call_writes d (calc_scalar i pt) p = (p = pt)"
| "call_writes d (calc_clusters othr ithr lim norm_idxs) p = in_norm_range d norm_idxs p"
| "call_writes d (calc_vectors othr ithr lim norm_idxs lane_mask) p =
     (in_norm_range d norm_idxs p \<and> lane_enabled d lane_mask p)"

text \<open>The number of calls in a list that write the point \<open>p\<close>.\<close>

definition num_writes :: "Dims \<Rightarrow> 'a::len word call list \<Rightarrow> Indices \<Rightarrow> nat" where
  "num_writes d calls p = length (filter (\<lambda>c. call_writes d c p) calls)"

section \<open>The reference scalar paths\<close>

text \<open>Modelled from the spec: the loops of \<open>yask_misc_loops.hpp\<close> (generated, missing)
  traverse all lattice points of \<open>[begin, end)\<close> with the given stride, invoking the
  body once per point with \<open>misc_range.start\<close> at the point; the points are taken in
  lexicographic order, as nested \<open>for\<close> loops over the dims do. A loop that is entered
  with a stride below 1 does not advance and never returns: the result is \<open>None\<close>.\<close>

function scan_dim :: "idx_t \<Rightarrow> idx_t \<Rightarrow> idx_t \<Rightarrow> idx_t list" where
  "scan_dim b e s = (if b < e \<and> 0 < s then b # scan_dim (b + s) e s else [])"
  by pat_completeness auto
termination
  by (relation "measure (\<lambda>(b, e, s). nat (e - b))") auto

declare scan_dim.simps [simp del]

fun misc_points :: "(idx_t \<times> idx_t \<times> idx_t) list \<Rightarrow> Indices list option" where
  "misc_points [] = Some [[]]"
| "misc_points ((b, e, s) # rest) =
     (if \<not> b < e then Some []
      else if s < 1 then None
      else case misc_points rest of
             None \<Rightarrow> None
           | Some ps \<Rightarrow> Some (concat (map (\<lambda>x. map ((#) x) ps) (scan_dim b e s))))"

definition misc_loops :: "ScanIndices \<Rightarrow> Indices list option" where
  "misc_loops idxs = misc_points (zip (begin_v idxs) (zip (end_v idxs) (stride idxs)))"

text \<open>\<open>StencilBundleTempl::calc_in_domain\<close>.\<close>

definition calc_in_domain ::
  "StencilBundleImplT \<Rightarrow> int \<Rightarrow> ScanIndices \<Rightarrow> 'm call list option" where
  "calc_in_domain b scratch_var_idx misc_idxs =
     (case misc_loops misc_idxs of
        None \<Rightarrow> None
      | Some pts \<Rightarrow>
          Some (concat (map (\<lambda>pt. if bundle_is_in_valid_domain b pt
                                  then [calc_scalar scratch_var_idx pt] else []) pts)))"

text \<open>\<open>StencilBundleTempl::calc_nano_block_dbg2\<close>.\<close>

definition calc_nano_block_dbg2 :: "int \<Rightarrow> ScanIndices \<Rightarrow> 'm call list option" where
  "calc_nano_block_dbg2 outer_thread_idx misc_idxs =
     (case misc_loops misc_idxs of
        None \<Rightarrow> None
      | Some pts \<Rightarrow> Some (map (\<lambda>pt. calc_scalar outer_thread_idx pt) pts))"

text \<open>\<open>StencilBundleTempl::calc_nano_block_dbg\<close>, a method of the bundle \<open>b\<close>.\<close>

definition calc_nano_block_dbg ::
  "StencilBundleImplT \<Rightarrow> int \<Rightarrow> int \<Rightarrow> KernelSettings \<Rightarrow> ScanIndices
     \<Rightarrow> 'm call list option" where
  "calc_nano_block_dbg b outer_thread_idx inner_thread_idx settings micro_block_idxs =
     (let sb_idxs = create_inner micro_block_idxs;
          sb_idxs = sb_idxs\<lparr>stride := set_from_const (stride sb_idxs) 1\<rparr>;
          sb_idxs = sb_idxs\<lparr>align := set_from_const (align sb_idxs) 1\<rparr>
      in calc_nano_block_dbg2 outer_thread_idx sb_idxs)"

section \<open>Well-formed inputs\<close>

text \<open>Every fold length is positive and every cluster length is a positive multiple of
  its fold length (\<open>CPTS_X = CLEN_X * VLEN_X\<close> in \<open>stencil.hpp\<close>).\<close>

definition dims_ok :: "Dims \<Rightarrow> bool" where
  "dims_ok d \<longleftrightarrow>
     length (cluster_pts d) = length (fold_pts d)
     \<and> (\<forall>j < length (fold_pts d).
           0 < fold_pts d ! j \<and> 0 < cluster_pts d ! j \<and> fold_pts d ! j dvd cluster_pts d ! j)"

text \<open>The nano-block leaves room in dim \<open>j\<close>: its rank-relative begin and end are
  further than a fold length and a cluster length from both limits of \<open>idx_t\<close>, so
  that no rounding to a multiple leaves the range of \<open>idx_t\<close>.\<close>

definition idx_room :: "StencilContext \<Rightarrow> ScanIndices \<Rightarrow> nat \<Rightarrow> bool" where
  "idx_room ctx sb_idxs j \<longleftrightarrow>
     (let b = begin_v sb_idxs ! j - rank_domain_offsets ctx ! j;
          e = end_v sb_idxs ! j - rank_domain_offsets ctx ! j;
          m = max (fold_pts (dims ctx) ! j) (cluster_pts (dims ctx) ! j)
      in idx_fits (b - m) \<and> idx_fits (b + m) \<and> idx_fits (e - m) \<and> idx_fits (e + m))"

text \<open>The points of the element range \<open>[b, e)\<close>.\<close>

definition in_range :: "Indices \<Rightarrow> Indices \<Rightarrow> Indices \<Rightarrow> bool" where
  "in_range b e p \<longleftrightarrow>
     length p = length b \<and> (\<forall>j < length b. b ! j \<le> p ! j \<and> p ! j < e ! j)"

section \<open>Vocabulary of the proofs\<close>

text \<open>The position of a lane when the first dim has unit stride: the inverse of
  \<^const>\<open>unlayout_inner\<close>.\<close>

fun layout_inner :: "Indices \<Rightarrow> Indices \<Rightarrow> nat" where
  "layout_inner (s # ss) (x # xs) = nat x + nat s * layout_inner ss xs"
| "layout_inner ss xs = 0"


text \<open>The loop-local variables of dim \<open>j\<close> after the masks are built, whether the dim
  is in the case of an overlapping peel and remainder, and the variables and the
  contribution to \<open>do_clusters\<close> after the special cases.\<close>

definition dim_masked :: "StencilContext \<Rightarrow> ScanIndices \<Rightarrow> nat \<Rightarrow> 'a::len word dim_vars" where
  "dim_masked ctx sb_idxs j =
     (let v = dim_ranges ctx sb_idxs j; m = build_masks (dims ctx) j v
      in v\<lparr>pmask := fst m, rmask := snd m\<rparr>)"

definition overlap :: "'a::len word dim_vars \<Rightarrow> bool" where
  "overlap v \<longleftrightarrow> do_left_pvec v \<and> do_right_pvec v \<and> ovbgn v = fvend v"

definition dim_final :: "StencilContext \<Rightarrow> ScanIndices \<Rightarrow> nat \<Rightarrow> 'a::len word dim_vars" where
  "dim_final ctx sb_idxs j =
     (let v = dim_masked ctx sb_idxs j in
      if overlap v then
        v\<lparr>pmask := pmask v AND rmask v, rmask := 0,
          do_left_pvec := True, do_right_pvec := False,
          do_left_fvec := False, do_right_fvec := False\<rparr>
      else if fcend v \<le> fcbgn v then
        v\<lparr>fcbgn := fvend v, fcend := fvend v,
          do_left_fvec := (do_left_fvec v \<or> do_right_fvec v), do_right_fvec := False\<rparr>
      else v)"

definition dim_clusters :: "StencilContext \<Rightarrow> ScanIndices \<Rightarrow> nat \<Rightarrow> bool" where
  "dim_clusters ctx sb_idxs j \<longleftrightarrow>
     (let v = (dim_ranges ctx sb_idxs j :: 1 word dim_vars) in
      \<not> (do_left_pvec v \<and> do_right_pvec v \<and> ovbgn v = fvend v) \<and> fcbgn v < fcend v)"

text \<open>The inputs of dim \<open>j\<close> are well formed: the lists have an entry for \<open>j\<close>, the
  nano-block is not reversed and it leaves room in the range of \<open>idx_t\<close>.\<close>

definition dim_ok :: "StencilContext \<Rightarrow> ScanIndices \<Rightarrow> nat \<Rightarrow> bool" where
  "dim_ok ctx sb_idxs j \<longleftrightarrow>
     j < nddims (dims ctx) \<and> dims_ok (dims ctx)
     \<and> begin_v sb_idxs ! j \<le> end_v sb_idxs ! j
     \<and> idx_room ctx sb_idxs j"

text \<open>The state that the loop over the dims \<open>[0, m)\<close> builds from \<open>st0\<close> when no
  assertion fails.\<close>

definition loop_fold ::
  "StencilContext \<Rightarrow> ScanIndices \<Rightarrow> nat \<Rightarrow> 'a::len word nano_vars \<Rightarrow> 'a word nano_vars" where
  "loop_fold ctx sb_idxs m st0 =
     foldl (\<lambda>st j. save_dim st j (do_clusters st \<and> dim_clusters ctx sb_idxs j)
                      (dim_final ctx sb_idxs j))
       st0 [0 ..< m]"

definition any_flag :: "'a::len word dim_vars \<Rightarrow> bool" where
  "any_flag v \<longleftrightarrow> do_left_fvec v \<or> do_right_fvec v \<or> do_left_pvec v \<or> do_right_pvec v"

text \<open>The inputs of \<open>calc_nano_block_opt\<close> are well formed: the dims are, every
  \<open>Indices\<close> read has one entry per domain dim, and the nano-block (the \<open>start\<close> and
  \<open>stop\<close> of the micro-block tile) is not reversed in any dim and lies, in
  rank-relative coordinates, at least a cluster length from both limits of \<open>idx_t\<close>.\<close>

definition nano_ok :: "StencilContext \<Rightarrow> ScanIndices \<Rightarrow> bool" where
  "nano_ok ctx micro_block_idxs \<longleftrightarrow>
     dims_ok (dims ctx)
     \<and> length (rank_domain_offsets ctx) = nddims (dims ctx)
     \<and> length (start micro_block_idxs) = nddims (dims ctx)
     \<and> length (stop micro_block_idxs) = nddims (dims ctx)
     \<and> (\<forall>j < nddims (dims ctx). start micro_block_idxs ! j \<le> stop micro_block_idxs ! j)
     \<and> (\<forall>j < nddims (dims ctx).
           idx_fits (start micro_block_idxs ! j - rank_domain_offsets ctx ! j
                       - cluster_pts (dims ctx) ! j)
           \<and> idx_fits (stop micro_block_idxs ! j - rank_domain_offsets ctx ! j
                         + cluster_pts (dims ctx) ! j))"

text \<open>An \<open>Indices\<close> value that \<open>normalize_indices\<close> accepts, and its normalization.\<close>

definition aligned :: "Dims \<Rightarrow> Indices \<Rightarrow> bool" where
  "aligned d x \<longleftrightarrow> length x = nddims d \<and> (\<forall>j < nddims d. fold_pts d ! j dvd x ! j)"

definition norm_of :: "Dims \<Rightarrow> Indices \<Rightarrow> Indices" where
  "norm_of d x = map (\<lambda>j. idiv_flr (x ! j) (fold_pts d ! j)) [0 ..< nddims d]"

text \<open>A dim of a boundary part is on the left, on the right, or not selected.
  \<open>side_of cdims lr j\<close> reads this off the combo \<open>cdims\<close> and the left-right sequence
  \<open>lr\<close>, as the loop over the dims of a part does: the bit of \<open>lr\<close> that counts is the
  number of selected dims below \<open>j\<close>.\<close>

datatype side = side_left | side_mid | side_right

definition side_of :: "'a::len word \<Rightarrow> 'a word \<Rightarrow> nat \<Rightarrow> side" where
  "side_of cdims lr j =
     (if \<not> is_bit_set cdims j then side_mid
      else if \<not> is_bit_set lr (length (filter (is_bit_set cdims) [0 ..< j])) then side_left
      else side_right)"

definition sides_of :: "nat \<Rightarrow> 'a::len word \<Rightarrow> 'a word \<Rightarrow> side list" where
  "sides_of n cdims lr = map (side_of cdims lr) [0 ..< n]"

text \<open>The part's variables after the loop over the dims \<open>[0, m)\<close>.\<close>

definition part_fold ::
  "'a::len word nano_vars \<Rightarrow> ScanIndices \<Rightarrow> ScanIndices \<Rightarrow> ScanIndices \<Rightarrow> 'a word \<Rightarrow> 'a word
     \<Rightarrow> nat \<Rightarrow> 'a word part_vars" where
  "part_fold st norm_fcidxs norm_fvidxs norm_ovidxs cdims lr m =
     foldl (part_dim st norm_fcidxs norm_fvidxs norm_ovidxs cdims lr)
       \<lparr>fv_part = norm_fcidxs, pv_part = norm_fvidxs, fv_needed = True, pv_needed = True,
        pv_mask = - 1, nsel = 0\<rparr>
       [0 ..< m]"

text \<open>The coordinates \<open>x\<close> of a dim that a full-vector region (\<open>fv_in\<close>) or a
  partial-vector region with its mask (\<open>pv_in\<close>) covers when the dim is on the given
  side; \<open>f\<close> holds the variables of the dim after the special cases. With \<open>side_mid\<close>,
  \<open>fv_in\<close> is the full-cluster range and \<open>pv_in\<close> the full-vector range.\<close>

definition fv_in :: "side \<Rightarrow> 'a::len word dim_vars \<Rightarrow> idx_t \<Rightarrow> bool" where
  "fv_in s f x =
     (case s of
        side_left \<Rightarrow> do_left_fvec f \<and> fvbgn f \<le> x \<and> x < fcbgn f
      | side_mid \<Rightarrow> fcbgn f \<le> x \<and> x < fcend f
      | side_right \<Rightarrow> do_right_fvec f \<and> fcend f \<le> x \<and> x < fvend f)"

definition pv_in :: "side \<Rightarrow> 'a::len word dim_vars \<Rightarrow> idx_t \<Rightarrow> bool" where
  "pv_in s f x =
     (case s of
        side_left \<Rightarrow> do_left_pvec f \<and> ovbgn f \<le> x \<and> x < fvbgn f \<and> ebgn f \<le> x \<and> x < eend f
      | side_mid \<Rightarrow> fvbgn f \<le> x \<and> x < fvend f
      | side_right \<Rightarrow> do_right_pvec f \<and> fvend f \<le> x \<and> x < ovend f \<and> x < eend f)"

text \<open>The boundary parts in the order of the loops over \<open>k\<close>, the combos and the
  left-right sequences: the combo and the sequence of each part.\<close>

definition part_list :: "nat \<Rightarrow> ('a::len word \<times> 'a word) list" where
  "part_list n =
     concat (map (\<lambda>k.
       concat (map (\<lambda>r.
         map (\<lambda>lr. (n_choose_k_set n k r, of_nat lr)) [0 ..< unat (push_bit k 1 :: 'a word)])
         [0 ..< n_choose_k n k]))
       [1 ..< Suc n])"

section \<open>Properties of the step conditions\<close>

lemma stage_loop_first:
  "stage_loop ctx st s \<longleftrightarrow>
     (\<exists>i < length st. \<not> is_scratch (st ! i) \<and> (\<forall>k < i. is_scratch (st ! k))
        \<and> is_in_valid_step ctx (st ! i) s)"
proof (induction st)
  case Nil
  show ?case by simp
next
  case (Cons bp bps)
  show ?case
  proof (cases "is_scratch bp")
    case False
    have "(\<exists>i < length (bp # bps). \<not> is_scratch ((bp # bps) ! i)
             \<and> (\<forall>k < i. is_scratch ((bp # bps) ! k))
             \<and> is_in_valid_step ctx ((bp # bps) ! i) s)
          \<longleftrightarrow> is_in_valid_step ctx bp s" (is "?L \<longleftrightarrow> ?R")
    proof
      assume ?L
      then obtain i where i: "i < length (bp # bps)"
        "\<forall>k < i. is_scratch ((bp # bps) ! k)" "is_in_valid_step ctx ((bp # bps) ! i) s"
        by blast
      have "i = 0"
      proof (rule ccontr)
        assume "i \<noteq> 0"
        then have "is_scratch ((bp # bps) ! 0)" using i(2) by blast
        with False show False by simp
      qed
      with i(3) show ?R by simp
    next
      assume ?R
      with False show ?L by (intro exI [of _ 0]) simp
    qed
    with False show ?thesis by simp
  next
    case True
    have "(\<exists>i < length (bp # bps). \<not> is_scratch ((bp # bps) ! i)
             \<and> (\<forall>k < i. is_scratch ((bp # bps) ! k))
             \<and> is_in_valid_step ctx ((bp # bps) ! i) s)
          \<longleftrightarrow> (\<exists>i < length bps. \<not> is_scratch (bps ! i)
             \<and> (\<forall>k < i. is_scratch (bps ! k)) \<and> is_in_valid_step ctx (bps ! i) s)"
      (is "?L \<longleftrightarrow> ?R")
    proof
      assume ?L
      then obtain i where i: "i < length (bp # bps)" "\<not> is_scratch ((bp # bps) ! i)"
        "\<forall>k < i. is_scratch ((bp # bps) ! k)" "is_in_valid_step ctx ((bp # bps) ! i) s"
        by blast
      from i(2) True obtain m where m: "i = Suc m" by (cases i) auto
      have "\<forall>k < m. is_scratch (bps ! k)"
      proof (intro allI impI)
        fix k assume "k < m"
        then have "Suc k < i" using m by simp
        then have "is_scratch ((bp # bps) ! Suc k)" using i(3) by blast
        then show "is_scratch (bps ! k)" by simp
      qed
      with i m show ?R by (intro exI [of _ m]) simp
    next
      assume ?R
      then obtain m where m: "m < length bps" "\<not> is_scratch (bps ! m)"
        "\<forall>k < m. is_scratch (bps ! k)" "is_in_valid_step ctx (bps ! m) s"
        by blast
      have "\<forall>k < Suc m. is_scratch ((bp # bps) ! k)"
      proof (intro allI impI)
        fix k assume "k < Suc m"
        then show "is_scratch ((bp # bps) ! k)" using True m(3) by (cases k) auto
      qed
      with m show ?L by (intro exI [of _ "Suc m"]) simp
    qed
    with True Cons.IH show ?thesis by simp
  qed
qed

lemma stage_loop_unchecked:
  "\<not> check_step_conds ctx \<Longrightarrow> stage_loop ctx st s \<longleftrightarrow> (\<exists>b \<in> set st. \<not> is_scratch b)"
  by (induction st) (auto simp: is_in_valid_step_def)

text \<open>
  C9. For every step index \<open>s\<close>, \<open>Stage::is_in_valid_step(s)\<close> returns true iff the
  first non-scratch member bundle in the stage's order accepts \<open>s\<close>: there is a position
  \<open>i\<close> holding a non-scratch bundle, every earlier member is a scratch bundle, and
  the bundle at \<open>i\<close> returns true from its own \<open>is_in_valid_step(s)\<close>.
\<close>

theorem Stage_is_in_valid_step_first_non_scratch:
  "Stage_is_in_valid_step ctx stage s \<longleftrightarrow>
     (\<exists>i < length stage. \<not> is_scratch (stage ! i) \<and> (\<forall>k < i. is_scratch (stage ! k))
        \<and> is_in_valid_step ctx (stage ! i) s)"
proof (cases stage)
  case Nil
  then show ?thesis by (simp add: Stage_is_in_valid_step_def)
next
  case (Cons bp bps)
  then have "Stage_is_in_valid_step ctx stage s = stage_loop ctx stage s"
    by (simp add: Stage_is_in_valid_step_def)
  then show ?thesis by (simp only: stage_loop_first)
qed

theorem Stage_is_in_valid_step_first_non_scratch_witness:
  "Stage_is_in_valid_step
     \<lparr>dims = \<lparr>fold_pts = [4], cluster_pts = [8], first_inner = True\<rparr>,
      rank_domain_offsets = [0], check_step_conds = True, thread_limit = 1\<rparr>
     [\<lparr>bundle_is_scratch = True, bundle_is_in_valid_step = (\<lambda>s. False),
        bundle_is_in_valid_domain = (\<lambda>p. True)\<rparr>,
      \<lparr>bundle_is_scratch = False, bundle_is_in_valid_step = (\<lambda>s. s mod 2 = 0),
        bundle_is_in_valid_domain = (\<lambda>p. True)\<rparr>] 4"
proof -
  let ?ctx = "\<lparr>dims = \<lparr>fold_pts = [4], cluster_pts = [8], first_inner = True\<rparr>,
      rank_domain_offsets = [0], check_step_conds = True, thread_limit = 1\<rparr>"
  let ?s1 = "\<lparr>bundle_is_scratch = True, bundle_is_in_valid_step = (\<lambda>s::int. False),
        bundle_is_in_valid_domain = (\<lambda>p::int list. True)\<rparr>"
  let ?b = "\<lparr>bundle_is_scratch = False, bundle_is_in_valid_step = (\<lambda>s::int. s mod 2 = 0),
        bundle_is_in_valid_domain = (\<lambda>p::int list. True)\<rparr>"
  have "\<exists>i < length [?s1, ?b]. \<not> is_scratch ([?s1, ?b] ! i)
          \<and> (\<forall>k < i. is_scratch ([?s1, ?b] ! k)) \<and> is_in_valid_step ?ctx ([?s1, ?b] ! i) 4"
    by (intro exI [of _ 1]) (simp add: is_scratch_def is_in_valid_step_def)
  then show ?thesis
    by (simp only: Stage_is_in_valid_step_first_non_scratch [of ?ctx "[?s1, ?b]" 4])
qed

text \<open>
  C10 (as stated). \<open>StencilBundleTempl::is_in_valid_step\<close> returns true whenever
  \<open>check_step_conds\<close> is false, and consequently \<open>Stage::is_in_valid_step\<close> accepts
  every step when step-condition checking is disabled. The consequence fails for a stage
  without members: the guard \<open>if (!size()) return false\<close> rejects every step.
\<close>

theorem Stage_unchecked_empty_counterexample:
  "\<not> check_step_conds
       \<lparr>dims = \<lparr>fold_pts = [4], cluster_pts = [8], first_inner = True\<rparr>,
        rank_domain_offsets = [0], check_step_conds = False, thread_limit = 1\<rparr>
   \<and> \<not> Stage_is_in_valid_step
       \<lparr>dims = \<lparr>fold_pts = [4], cluster_pts = [8], first_inner = True\<rparr>,
        rank_domain_offsets = [0], check_step_conds = False, thread_limit = 1\<rparr> [] 0"
  by (simp add: Stage_is_in_valid_step_def)

text \<open>
  C10 (amended). For every step index \<open>s\<close>, \<open>StencilBundleTempl::is_in_valid_step(s)\<close>
  returns true whenever \<open>check_step_conds\<close> is false, whatever the generated step
  condition is, and returns the generated \<open>is_in_valid_step\<close> when \<open>check_step_conds\<close>
  is true. With checking disabled, \<open>Stage::is_in_valid_step\<close> accepts every step iff the
  stage has a non-scratch member bundle; a stage that is empty or holds only scratch
  bundles rejects every step.
\<close>

theorem is_in_valid_step_unchecked:
  "(\<not> check_step_conds ctx \<longrightarrow>
      is_in_valid_step ctx (b\<lparr>bundle_is_in_valid_step := g\<rparr>) s)
   \<and> (check_step_conds ctx \<longrightarrow>
      is_in_valid_step ctx b s = bundle_is_in_valid_step b s)
   \<and> (\<not> check_step_conds ctx \<longrightarrow>
      (Stage_is_in_valid_step ctx stage s \<longleftrightarrow> (\<exists>m \<in> set stage. \<not> is_scratch m)))"
proof (intro conjI impI)
  assume "\<not> check_step_conds ctx"
  then show "is_in_valid_step ctx (b\<lparr>bundle_is_in_valid_step := g\<rparr>) s"
    by (simp add: is_in_valid_step_def)
next
  assume "check_step_conds ctx"
  then show "is_in_valid_step ctx b s = bundle_is_in_valid_step b s"
    by (simp add: is_in_valid_step_def)
next
  assume u: "\<not> check_step_conds ctx"
  show "Stage_is_in_valid_step ctx stage s \<longleftrightarrow> (\<exists>m \<in> set stage. \<not> is_scratch m)"
  proof (cases stage)
    case Nil
    then show ?thesis by (simp add: Stage_is_in_valid_step_def)
  next
    case (Cons bp bps)
    then have "Stage_is_in_valid_step ctx stage s = stage_loop ctx stage s"
      by (simp add: Stage_is_in_valid_step_def)
    with u show ?thesis by (simp add: stage_loop_unchecked)
  qed
qed

theorem is_in_valid_step_unchecked_witness:
  "is_in_valid_step
     \<lparr>dims = \<lparr>fold_pts = [4], cluster_pts = [8], first_inner = True\<rparr>,
      rank_domain_offsets = [0], check_step_conds = False, thread_limit = 1\<rparr>
     \<lparr>bundle_is_scratch = False, bundle_is_in_valid_step = (\<lambda>s. False),
      bundle_is_in_valid_domain = (\<lambda>p. True)\<rparr> 7
   \<and> Stage_is_in_valid_step
     \<lparr>dims = \<lparr>fold_pts = [4], cluster_pts = [8], first_inner = True\<rparr>,
      rank_domain_offsets = [0], check_step_conds = False, thread_limit = 1\<rparr>
     [\<lparr>bundle_is_scratch = False, bundle_is_in_valid_step = (\<lambda>s. False),
       bundle_is_in_valid_domain = (\<lambda>p. True)\<rparr>] 7"
proof -
  let ?ctx = "\<lparr>dims = \<lparr>fold_pts = [4], cluster_pts = [8], first_inner = True\<rparr>,
      rank_domain_offsets = [0], check_step_conds = False, thread_limit = 1\<rparr>"
  let ?b = "\<lparr>bundle_is_scratch = False, bundle_is_in_valid_step = (\<lambda>s::int. False),
      bundle_is_in_valid_domain = (\<lambda>p::int list. True)\<rparr>"
  have u: "\<not> check_step_conds ?ctx" by simp
  have n: "\<exists>m \<in> set [?b]. \<not> is_scratch m" by (simp add: is_scratch_def)
  note t = is_in_valid_step_unchecked
    [where ctx = ?ctx and b = ?b and g = "\<lambda>s. False" and s = 7 and stage = "[?b]"]
  from t u have "is_in_valid_step ?ctx (?b\<lparr>bundle_is_in_valid_step := \<lambda>s. False\<rparr>) 7"
    by blast
  then have a: "is_in_valid_step ?ctx ?b 7" by simp
  from t u n have "Stage_is_in_valid_step ?ctx [?b] 7" by blast
  with a show ?thesis by blast
qed

section \<open>Rounding to multiples\<close>

lemma idx_wrap_fits: "idx_fits x \<Longrightarrow> idx_wrap x = x"
  by (simp add: idx_wrap_def idx_fits_def)

lemma idx_wrap_idem: "idx_wrap (idx_wrap x) = idx_wrap x"
  by (simp add: idx_wrap_def)

lemma idx_fits_between: "idx_fits a \<Longrightarrow> idx_fits b \<Longrightarrow> a \<le> x \<Longrightarrow> x \<le> b \<Longrightarrow> idx_fits x"
  by (simp add: idx_fits_def)

lemma round_down_flr_props:
  assumes "0 < b" "idx_fits (a - b)" "idx_fits a"
  shows "b dvd round_down_flr a b" "round_down_flr a b \<le> a" "a < round_down_flr a b + b"
proof -
  have e: "idiv_flr a b * b = a - a mod b"
    by (simp add: idiv_flr_def minus_mod_eq_div_mult)
  from assms(1) have m: "0 \<le> a mod b" "a mod b < b" by simp_all
  have "idx_fits (a - a mod b)"
    by (rule idx_fits_between [OF assms(2,3)]) (use m in simp_all)
  then have r: "round_down_flr a b = a - a mod b"
    by (simp add: round_down_flr_def e idx_wrap_fits)
  show "b dvd round_down_flr a b" unfolding r by (simp add: e [symmetric])
  from m r show "round_down_flr a b \<le> a" "a < round_down_flr a b + b" by linarith+
qed

lemma round_up_flr_props:
  assumes "0 < b" "idx_fits a" "idx_fits (a + b)"
  shows "b dvd round_up_flr a b" "a \<le> round_up_flr a b" "round_up_flr a b < a + b"
proof -
  have f: "idx_fits (a + b - 1)"
    by (rule idx_fits_between [OF assms(2,3)]) (use assms(1) in simp_all)
  have e: "idiv_flr (a + b - 1) b * b = (a + b - 1) - (a + b - 1) mod b"
    by (simp add: idiv_flr_def minus_mod_eq_div_mult)
  from assms(1) have m: "0 \<le> (a + b - 1) mod b" "(a + b - 1) mod b < b" by simp_all
  have "idx_fits ((a + b - 1) - (a + b - 1) mod b)"
    by (rule idx_fits_between [OF assms(2,3)]) (use m in simp_all)
  then have r: "round_up_flr a b = (a + b - 1) - (a + b - 1) mod b"
    by (simp add: round_up_flr_def idx_wrap_fits [OF f] e idx_wrap_fits)
  show "b dvd round_up_flr a b" unfolding r by (simp add: e [symmetric])
  from m r show "a \<le> round_up_flr a b" "round_up_flr a b < a + b" by linarith+
qed

lemma multiple_between_unique:
  fixes x y b :: int
  assumes "0 < b" "b dvd x" "b dvd y" "x < y + b" "y < x + b"
  shows "x = y"
proof -
  from assms obtain m n where "x = b * m" "y = b * n" by (auto simp: dvd_def)
  with assms have "b * m < b * (n + 1)" "b * n < b * (m + 1)" by (simp_all add: algebra_simps)
  with assms(1) have "m < n + 1" "n < m + 1" by (simp_all add: mult_less_cancel_left_pos)
  then have "m = n" by simp
  with \<open>x = b * m\<close> \<open>y = b * n\<close> show ?thesis by simp
qed

lemma idx_roomD:
  assumes R: "idx_room ctx sb_idxs j"
    and m: "0 < m" "m \<le> max (fold_pts (dims ctx) ! j) (cluster_pts (dims ctx) ! j)"
    and x: "x = begin_v sb_idxs ! j - rank_domain_offsets ctx ! j
        \<or> x = end_v sb_idxs ! j - rank_domain_offsets ctx ! j"
  shows "idx_fits x" "idx_fits (x - m)" "idx_fits (x + m)"
proof -
  let ?M = "max (fold_pts (dims ctx) ! j) (cluster_pts (dims ctx) ! j)"
  from R x have f: "idx_fits (x - ?M)" "idx_fits (x + ?M)"
    by (auto simp: idx_room_def Let_def)
  show "idx_fits x" by (rule idx_fits_between [OF f]) (use m in simp_all)
  show "idx_fits (x - m)" by (rule idx_fits_between [OF f]) (use m in simp_all)
  show "idx_fits (x + m)" by (rule idx_fits_between [OF f]) (use m in simp_all)
qed

lemma dim_ranges_ends:
  fixes v :: "'a::len word dim_vars"
  assumes V: "0 < V" "V = fold_pts (dims ctx) ! j"
    and v: "v = dim_ranges ctx sb_idxs j"
    and R: "idx_room ctx sb_idxs j"
  shows "ebgn v = begin_v sb_idxs ! j - rank_domain_offsets ctx ! j"
    "eend v = end_v sb_idxs ! j - rank_domain_offsets ctx ! j"
  using idx_roomD(1) [OF R, of V] V
  unfolding v dim_ranges_def Let_def by (simp_all add: idx_wrap_fits)

lemma dim_ranges_fold_aux:
  fixes v :: "'a::len word dim_vars"
  assumes V: "0 < V" "V = fold_pts (dims ctx) ! j"
    and v: "v = dim_ranges ctx sb_idxs j"
    and R: "idx_room ctx sb_idxs j"
  shows "ebgn v = begin_v sb_idxs ! j - rank_domain_offsets ctx ! j"
    "eend v = end_v sb_idxs ! j - rank_domain_offsets ctx ! j"
    "V dvd fvbgn v" "ebgn v \<le> fvbgn v" "fvbgn v < ebgn v + V"
    "V dvd fvend v" "fvend v \<le> eend v" "eend v < fvend v + V"
    "V dvd ovbgn v" "ovbgn v \<le> ebgn v" "ebgn v < ovbgn v + V"
    "V dvd ovend v" "eend v \<le> ovend v" "ovend v < eend v + V"
proof -
  note e = dim_ranges_ends [OF V v R]
  have m: "V \<le> max (fold_pts (dims ctx) ! j) (cluster_pts (dims ctx) ! j)"
    using V(2) by simp
  note fb = idx_roomD [OF R V(1) m, of "ebgn v", unfolded e, OF disjI1 [OF refl]]
  note fe = idx_roomD [OF R V(1) m, of "eend v", unfolded e, OF disjI2 [OF refl]]
  note ub = round_up_flr_props [OF V(1) fb(1) fb(3)]
  note db = round_down_flr_props [OF V(1) fb(2) fb(1)]
  note ue = round_up_flr_props [OF V(1) fe(1) fe(3)]
  note de = round_down_flr_props [OF V(1) fe(2) fe(1)]
  have fl: "fvbgn v = round_up_flr (ebgn v) V" "fvend v = round_down_flr (eend v) V"
    "ovbgn v = round_down_flr (ebgn v) V" "ovend v = round_up_flr (eend v) V"
    unfolding v V(2) dim_ranges_def Let_def by simp_all
  show "ebgn v = begin_v sb_idxs ! j - rank_domain_offsets ctx ! j"
    "eend v = end_v sb_idxs ! j - rank_domain_offsets ctx ! j" by (rule e)+
  show "V dvd fvbgn v" "ebgn v \<le> fvbgn v" "fvbgn v < ebgn v + V"
    unfolding fl e by (rule ub)+
  show "V dvd fvend v" "fvend v \<le> eend v" "eend v < fvend v + V"
    unfolding fl e by (rule de)+
  show "V dvd ovbgn v" "ovbgn v \<le> ebgn v" "ebgn v < ovbgn v + V"
    unfolding fl e by (rule db)+
  show "V dvd ovend v" "eend v \<le> ovend v" "ovend v < eend v + V"
    unfolding fl e by (rule ue)+
qed

lemma dim_ranges_cluster_aux:
  fixes v :: "'a::len word dim_vars"
  assumes C: "0 < C" "C = cluster_pts (dims ctx) ! j"
    and v: "v = dim_ranges ctx sb_idxs j"
    and R: "idx_room ctx sb_idxs j"
  shows "C dvd fcbgn v" "ebgn v \<le> fcbgn v" "fcbgn v < ebgn v + C"
    "C dvd fcend v" "fcend v \<le> eend v" "eend v < fcend v + C"
proof -
  have m: "C \<le> max (fold_pts (dims ctx) ! j) (cluster_pts (dims ctx) ! j)"
    using C(2) by simp
  have e: "ebgn v = begin_v sb_idxs ! j - rank_domain_offsets ctx ! j"
    "eend v = end_v sb_idxs ! j - rank_domain_offsets ctx ! j"
    using idx_roomD(1) [OF R C(1) m]
    unfolding v dim_ranges_def Let_def by (simp_all add: idx_wrap_fits)
  note fb = idx_roomD [OF R C(1) m, of "ebgn v", unfolded e, OF disjI1 [OF refl]]
  note fe = idx_roomD [OF R C(1) m, of "eend v", unfolded e, OF disjI2 [OF refl]]
  have fl: "fcbgn v = round_up_flr (ebgn v) C" "fcend v = round_down_flr (eend v) C"
    unfolding v C(2) dim_ranges_def Let_def by simp_all
  show "C dvd fcbgn v" "ebgn v \<le> fcbgn v" "fcbgn v < ebgn v + C"
    unfolding fl e by (rule round_up_flr_props [OF C(1) fb(1) fb(3)])+
  show "C dvd fcend v" "fcend v \<le> eend v" "eend v < fcend v + C"
    unfolding fl e by (rule round_down_flr_props [OF C(1) fe(2) fe(1)])+
qed

lemma dim_ranges_flags:
  fixes v :: "'a::len word dim_vars"
  assumes v: "v = dim_ranges ctx sb_idxs j"
  shows "do_left_fvec v \<longleftrightarrow> fvbgn v < fcbgn v" "do_right_fvec v \<longleftrightarrow> fvend v > fcend v"
    "do_left_pvec v \<longleftrightarrow> ebgn v < fvbgn v" "do_right_pvec v \<longleftrightarrow> eend v > fvend v"
    "pmask v = 0" "rmask v = 0"
  unfolding v dim_ranges_def Let_def by simp_all

section \<open>Lanes and lane masks\<close>

lemma unlayout_inner_layout:
  "list_all2 (\<lambda>x s. 0 \<le> x \<and> x < s) l sizes \<Longrightarrow>
     unlayout_inner sizes (layout_inner sizes l) = l
     \<and> layout_inner sizes l < nat (prod_list sizes)"
proof (induction l sizes rule: list_all2_induct)
  case Nil
  show ?case by simp
next
  case (Cons x l s sizes)
  let ?r = "layout_inner sizes l"
  from Cons have x: "0 \<le> x" "x < s" and r: "?r < nat (prod_list sizes)"
    and ih: "unlayout_inner sizes ?r = l" by simp_all
  have s: "0 < s" using x by simp
  have i: "int (nat x + nat s * ?r) = x + s * int ?r" using x s by simp
  have m: "(x + s * int ?r) mod s = x" using x by simp
  have d: "(x + s * int ?r) div s = int ?r" using x s by simp
  have "nat x + nat s * ?r < nat s * (?r + 1)" using x by simp
  also have "\<dots> \<le> nat s * nat (prod_list sizes)" using r by (intro mult_le_mono2) simp
  also have "\<dots> = nat (s * prod_list sizes)" using s by (simp add: nat_mult_distrib)
  finally have b: "nat x + nat s * ?r < nat (s * prod_list sizes)" .
  have "unlayout_inner (s # sizes) (nat x + nat s * ?r)
      = ((x + s * int ?r) mod s) # unlayout_inner sizes (nat ((x + s * int ?r) div s))"
    by (simp only: unlayout_inner.simps i)
  also have "\<dots> = x # l" by (simp only: m d nat_int ih)
  finally have u: "unlayout_inner (s # sizes) (layout_inner (s # sizes) (x # l)) = x # l"
    by simp
  have "layout_inner (s # sizes) (x # l) < nat (prod_list (s # sizes))"
    using b by simp
  with u show ?case by blast
qed

lemma unlayout_inner_length: "length (unlayout_inner sizes idx) = length sizes"
  by (induction sizes arbitrary: idx) simp_all

lemma unlayout_length: "length (unlayout fi sizes idx) = length sizes"
  by (simp add: unlayout_def unlayout_inner_length)

lemma unlayout_inner_box:
  "\<forall>s \<in> set sizes. 0 < s \<Longrightarrow> j < length sizes \<Longrightarrow>
     0 \<le> unlayout_inner sizes idx ! j \<and> unlayout_inner sizes idx ! j < sizes ! j"
proof (induction sizes arbitrary: idx j)
  case Nil
  then show ?case by simp
next
  case (Cons s sizes)
  then show ?case by (cases j) simp_all
qed

lemma unlayout_box:
  assumes "\<forall>s \<in> set sizes. 0 < s" "j < length sizes"
  shows "0 \<le> unlayout fi sizes idx ! j \<and> unlayout fi sizes idx ! j < sizes ! j"
proof (cases fi)
  case True
  with assms show ?thesis by (simp add: unlayout_def unlayout_inner_box)
next
  case False
  let ?k = "length sizes - Suc j"
  have k: "?k < length (rev sizes)" using assms(2) by simp
  have "\<forall>s \<in> set (rev sizes). 0 < s" using assms(1) by simp
  from unlayout_inner_box [OF this k, of idx]
  have "0 \<le> unlayout_inner (rev sizes) idx ! ?k
      \<and> unlayout_inner (rev sizes) idx ! ?k < rev sizes ! ?k" .
  moreover have "rev (unlayout_inner (rev sizes) idx) ! j = unlayout_inner (rev sizes) idx ! ?k"
    using assms(2) by (simp add: rev_nth unlayout_inner_length)
  moreover have "rev sizes ! ?k = sizes ! j" using assms(2) by (simp add: rev_nth)
  ultimately show ?thesis using False by (simp add: unlayout_def)
qed

lemma unlayout_surj:
  assumes "length l = length sizes" "\<forall>j < length sizes. 0 \<le> l ! j \<and> l ! j < sizes ! j"
  shows "\<exists>idx < nat (prod_list sizes). unlayout fi sizes idx = l"
proof (cases fi)
  case True
  from assms have "list_all2 (\<lambda>x s. 0 \<le> x \<and> x < s) l sizes"
    by (simp add: list_all2_conv_all_nth)
  from unlayout_inner_layout [OF this] True show ?thesis
    by (auto simp: unlayout_def)
next
  case False
  from assms have "list_all2 (\<lambda>x s. 0 \<le> x \<and> x < s) l sizes"
    by (simp add: list_all2_conv_all_nth)
  then have "list_all2 (\<lambda>x s. 0 \<le> x \<and> x < s) (rev l) (rev sizes)" by simp
  from unlayout_inner_layout [OF this]
  have "unlayout_inner (rev sizes) (layout_inner (rev sizes) (rev l)) = rev l"
    and "layout_inner (rev sizes) (rev l) < nat (prod_list sizes)" by simp_all
  with False show ?thesis
    by (intro exI [of _ "layout_inner (rev sizes) (rev l)"]) (simp add: unlayout_def)
qed

lemma visit_all_points_nth:
  "idx < nat (prod_list sizes) \<Longrightarrow>
     visit_all_points fi sizes ! idx = unlayout fi sizes idx"
  by (simp add: visit_all_points_def)

lemma visit_all_points_length:
  "length (visit_all_points fi sizes) = nat (prod_list sizes)"
  by (simp add: visit_all_points_def)

subsection \<open>Mask bits\<close>

lemma shift_fold_bits:
  fixes P :: "Indices \<Rightarrow> bool"
  assumes n: "n < LENGTH('a::len)"
  shows "length xs \<le> n \<Longrightarrow>
     bit (foldl (\<lambda>m pt. if P pt then signed_drop_bit 1 m OR push_bit (n - 1) 1
                         else signed_drop_bit 1 m) (0::'a word) xs) b
     \<longleftrightarrow> (n - length xs \<le> b \<and> b < n \<and> P (xs ! (b - (n - length xs))))"
proof -
  define f :: "'a word \<Rightarrow> Indices \<Rightarrow> 'a word"
    where "f = (\<lambda>m pt. if P pt then signed_drop_bit 1 m OR push_bit (n - 1) 1
                         else signed_drop_bit 1 m)"
  have "length xs \<le> n \<Longrightarrow>
     bit (foldl f 0 xs) b
     \<longleftrightarrow> (n - length xs \<le> b \<and> b < n \<and> P (xs ! (b - (n - length xs))))"
  proof (induction xs arbitrary: b rule: rev_induct)
    case Nil
    show ?case by auto
  next
    case (snoc x xs)
    let ?m = "foldl f 0 xs"
    let ?l = "length xs"
    from snoc.prems have l: "Suc ?l \<le> n" by simp
    have ih: "\<And>c. bit ?m c \<longleftrightarrow> (n - ?l \<le> c \<and> c < n \<and> P (xs ! (c - (n - ?l))))"
      using snoc.IH l by simp
    have sd: "bit (signed_drop_bit 1 ?m) b \<longleftrightarrow> (n - Suc ?l \<le> b \<and> b < n - 1
                \<and> P (xs ! (Suc b - (n - ?l))))"
    proof (cases "b = LENGTH('a) - 1")
      case True
      then have "bit (signed_drop_bit 1 ?m) b \<longleftrightarrow> bit ?m (LENGTH('a) - 1)"
        by (simp add: bit_signed_drop_bit_iff)
      also have "\<dots> \<longleftrightarrow> False" using ih [of "LENGTH('a) - 1"] n by simp
      finally have f: "\<not> bit (signed_drop_bit 1 ?m) b" by simp
      have "\<not> b < n - 1" using True n by linarith
      with f show ?thesis by blast
    next
      case False
      show ?thesis
      proof (cases "b < LENGTH('a)")
        case True
        with False have "bit (signed_drop_bit 1 ?m) b \<longleftrightarrow> bit ?m (Suc b)"
          by (auto simp: bit_signed_drop_bit_iff)
        moreover have "(n - ?l \<le> Suc b \<and> Suc b < n) \<longleftrightarrow> (n - Suc ?l \<le> b \<and> b < n - 1)"
          using l by linarith
        ultimately show ?thesis using ih [of "Suc b"] by blast
      next
        case False
        then have f: "\<not> bit (signed_drop_bit 1 ?m) b" by (auto dest: bit_imp_le_length)
        have "\<not> b < n - 1" using False n by linarith
        with f show ?thesis by blast
      qed
    qed
    have mb: "bit (push_bit (n - 1) (1::'a word)) b \<longleftrightarrow> b = n - 1"
      using n l by (auto simp: bit_simps)
    have nth1: "b = n - 1 \<Longrightarrow> (xs @ [x]) ! (b - (n - Suc ?l)) = x"
      using l by (simp add: nth_append)
    have nth2: "n - Suc ?l \<le> b \<Longrightarrow> b < n - 1 \<Longrightarrow>
        (xs @ [x]) ! (b - (n - Suc ?l)) = xs ! (Suc b - (n - ?l))"
    proof -
      assume a: "n - Suc ?l \<le> b" "b < n - 1"
      then have e: "b - (n - Suc ?l) = Suc b - (n - ?l)" using l by linarith
      have "Suc b - (n - ?l) < ?l" using a l by linarith
      with e show ?thesis by (simp add: nth_append)
    qed
    have "foldl f 0 (xs @ [x]) = f ?m x" by simp
    also have "\<dots> = (if P x then signed_drop_bit 1 ?m OR push_bit (n - 1) 1
                       else signed_drop_bit 1 ?m)"
      by (simp only: f_def)
    finally have "bit (foldl f 0 (xs @ [x])) b \<longleftrightarrow>
        (bit (signed_drop_bit 1 ?m) b \<or> (P x \<and> bit (push_bit (n - 1) (1::'a word)) b))"
      by (cases "P x") (simp_all only: if_True if_False bit_or_iff simp_thms)
    also have "\<dots> \<longleftrightarrow> (bit (signed_drop_bit 1 ?m) b \<or> (P x \<and> b = n - 1))"
      by (simp only: mb)
    also have "\<dots> \<longleftrightarrow> (n - Suc ?l \<le> b \<and> b < n \<and> P ((xs @ [x]) ! (b - (n - Suc ?l))))"
    proof (cases "b = n - 1")
      case True
      with sd l nth1 show ?thesis by auto
    next
      case False
      with sd l nth2 show ?thesis by (cases "b < n - 1") auto
    qed
    finally show ?case by simp
  qed
  then show "length xs \<le> n \<Longrightarrow>
     bit (foldl (\<lambda>m pt. if P pt then signed_drop_bit 1 m OR push_bit (n - 1) 1
                         else signed_drop_bit 1 m) (0::'a word) xs) b
     \<longleftrightarrow> (n - length xs \<le> b \<and> b < n \<and> P (xs ! (b - (n - length xs))))"
    by (simp only: f_def)
qed

lemma fst_mask_fold:
  "fst (foldl (mask_visit mbit j v) m xs) =
     foldl (\<lambda>m pt. if ebgn v \<le> idx_wrap (ovbgn v + pt ! j) then signed_drop_bit 1 m OR mbit
                    else signed_drop_bit 1 m) (fst m) xs"
  by (induction xs arbitrary: m) (simp_all add: mask_visit_def Let_def)

lemma snd_mask_fold:
  "snd (foldl (mask_visit mbit j v) m xs) =
     foldl (\<lambda>m pt. if idx_wrap (fvend v + pt ! j) < eend v then signed_drop_bit 1 m OR mbit
                    else signed_drop_bit 1 m) (snd m) xs"
  by (induction xs arbitrary: m) (simp_all add: mask_visit_def Let_def)

lemma build_masks_bits:
  fixes v :: "'a::len word dim_vars"
  assumes n: "nat (prod_list (fold_pts d)) < LENGTH('a)"
    and pv: "do_left_pvec v \<or> do_right_pvec v"
  shows "bit (fst (build_masks d j v)) idx \<longleftrightarrow>
           idx < nat (prod_list (fold_pts d))
           \<and> ebgn v \<le> idx_wrap (ovbgn v + unlayout (first_inner d) (fold_pts d) idx ! j)"
    and "bit (snd (build_masks d j v)) idx \<longleftrightarrow>
           idx < nat (prod_list (fold_pts d))
           \<and> idx_wrap (fvend v + unlayout (first_inner d) (fold_pts d) idx ! j) < eend v"
proof -
  let ?n = "nat (prod_list (fold_pts d))"
  let ?xs = "visit_all_points (first_inner d) (fold_pts d)"
  have len: "length ?xs = ?n" by (rule visit_all_points_length)
  have nm: "nat (prod_list (fold_pts d) - 1) = ?n - 1" by simp
  have bm: "build_masks d j v = foldl (mask_visit (push_bit (?n - 1) 1) j v) (0, 0) ?xs"
    using pv by (simp add: build_masks_def Let_def nm)
  have "bit (fst (build_masks d j v)) idx \<longleftrightarrow>
          (?n - length ?xs \<le> idx \<and> idx < ?n
           \<and> ebgn v \<le> idx_wrap (ovbgn v + ?xs ! (idx - (?n - length ?xs)) ! j))"
    unfolding bm fst_mask_fold
    by (simp only: fst_conv)
       (rule shift_fold_bits [OF n, where P = "\<lambda>pt. ebgn v \<le> idx_wrap (ovbgn v + pt ! j)"], simp add: len)
  then show "bit (fst (build_masks d j v)) idx \<longleftrightarrow>
           idx < ?n \<and> ebgn v \<le> idx_wrap (ovbgn v + unlayout (first_inner d) (fold_pts d) idx ! j)"
    using visit_all_points_nth [of idx "fold_pts d" "first_inner d"] by (auto simp: len)
  have "bit (snd (build_masks d j v)) idx \<longleftrightarrow>
          (?n - length ?xs \<le> idx \<and> idx < ?n
           \<and> idx_wrap (fvend v + ?xs ! (idx - (?n - length ?xs)) ! j) < eend v)"
    unfolding bm snd_mask_fold
    by (simp only: snd_conv)
       (rule shift_fold_bits [OF n, where P = "\<lambda>pt. idx_wrap (fvend v + pt ! j) < eend v"], simp add: len)
  then show "bit (snd (build_masks d j v)) idx \<longleftrightarrow>
           idx < ?n \<and> idx_wrap (fvend v + unlayout (first_inner d) (fold_pts d) idx ! j) < eend v"
    using visit_all_points_nth [of idx "fold_pts d" "first_inner d"] by (auto simp: len)
qed

text \<open>With as many lanes as bits, the bit set for a lane is the sign bit, which the
  arithmetic shifts keep: the top bit of a mask tells whether any lane passed the test.\<close>

lemma shift_fold_msb:
  fixes P :: "Indices \<Rightarrow> bool"
  shows "bit (foldl (\<lambda>m pt. if P pt then signed_drop_bit 1 m OR push_bit (LENGTH('a) - 1) 1
                         else signed_drop_bit 1 m) (0::'a::len word) xs) (LENGTH('a) - 1)
     \<longleftrightarrow> (\<exists>x \<in> set xs. P x)"
proof (induction xs rule: rev_induct)
  case Nil
  show ?case by simp
next
  case (snoc x xs)
  have mb: "bit (push_bit (LENGTH('a) - 1) (1::'a word)) (LENGTH('a) - 1)"
    by (simp add: bit_simps)
  show ?case using snoc mb by (simp add: bit_signed_drop_bit_iff bit_or_iff)
qed

lemma build_masks_full:
  fixes v :: "'a::len word dim_vars"
  assumes n: "nat (prod_list (fold_pts d)) = LENGTH('a)"
    and pv: "do_left_pvec v \<or> do_right_pvec v"
  shows "bit (fst (build_masks d j v)) (LENGTH('a) - 1) \<longleftrightarrow>
           (\<exists>pt \<in> set (visit_all_points (first_inner d) (fold_pts d)).
              ebgn v \<le> idx_wrap (ovbgn v + pt ! j))"
    and "bit (snd (build_masks d j v)) (LENGTH('a) - 1) \<longleftrightarrow>
           (\<exists>pt \<in> set (visit_all_points (first_inner d) (fold_pts d)).
              idx_wrap (fvend v + pt ! j) < eend v)"
proof -
  let ?xs = "visit_all_points (first_inner d) (fold_pts d)"
  have nm: "nat (prod_list (fold_pts d) - 1) = LENGTH('a) - 1" using n by simp
  have bm: "build_masks d j v = foldl (mask_visit (push_bit (LENGTH('a) - 1) 1) j v) (0, 0) ?xs"
    using pv by (simp add: build_masks_def Let_def nm)
  show "bit (fst (build_masks d j v)) (LENGTH('a) - 1) \<longleftrightarrow>
           (\<exists>pt \<in> set ?xs. ebgn v \<le> idx_wrap (ovbgn v + pt ! j))"
    unfolding bm fst_mask_fold
    by (simp only: fst_conv)
       (rule shift_fold_msb [where P = "\<lambda>pt. ebgn v \<le> idx_wrap (ovbgn v + pt ! j)"])
  show "bit (snd (build_masks d j v)) (LENGTH('a) - 1) \<longleftrightarrow>
           (\<exists>pt \<in> set ?xs. idx_wrap (fvend v + pt ! j) < eend v)"
    unfolding bm snd_mask_fold
    by (simp only: snd_conv)
       (rule shift_fold_msb [where P = "\<lambda>pt. idx_wrap (fvend v + pt ! j) < eend v"])
qed


section \<open>The per-dim loop\<close>

subsection \<open>The boundaries of one dim\<close>

lemma dims_okD:
  assumes "dims_ok d" "j < nddims d"
  shows "0 < fold_pts d ! j" "0 < cluster_pts d ! j" "fold_pts d ! j dvd cluster_pts d ! j"
    "j < length (cluster_pts d)"
  using assms by (simp_all add: dims_ok_def nddims_def)

lemma dims_ok_pos: "dims_ok d \<Longrightarrow> \<forall>s \<in> set (fold_pts d). 0 < s"
  by (auto simp: dims_ok_def in_set_conv_nth)

text \<open>The order of the boundaries, for fold length \<open>V\<close> and cluster length \<open>C\<close>.\<close>

lemma dvd_less_add_le:
  fixes x y V :: int
  assumes "0 < V" "V dvd x" "V dvd y" "x < y + V"
  shows "x \<le> y"
proof -
  from assms obtain m n where mn: "x = V * m" "y = V * n" by (auto simp: dvd_def)
  with assms have "V * m < V * (n + 1)" by (simp add: algebra_simps)
  with assms(1) have "m < n + 1" by (simp add: mult_less_cancel_left_pos)
  then have "m \<le> n" by simp
  with assms(1) mn show "x \<le> y" by simp
qed

lemma bounds_fold:
  fixes v :: "'a::len word dim_vars"
  assumes V: "0 < V" "V = fold_pts (dims ctx) ! j"
    and v: "v = dim_ranges ctx sb_idxs j"
    and R: "idx_room ctx sb_idxs j"
  shows "ovbgn v \<le> fvbgn v" "fvend v \<le> ovend v"
    "ebgn v < fvbgn v \<Longrightarrow> fvbgn v = ovbgn v + V"
    "\<not> ebgn v < fvbgn v \<Longrightarrow> fvbgn v = ebgn v \<and> ovbgn v = ebgn v"
    "fvend v < eend v \<Longrightarrow> ovend v = fvend v + V"
    "\<not> fvend v < eend v \<Longrightarrow> fvend v = eend v \<and> ovend v = eend v"
proof -
  note r = dim_ranges_fold_aux [OF V v R]
  from r show "ovbgn v \<le> fvbgn v" "fvend v \<le> ovend v" by linarith+
  show "fvbgn v = ovbgn v + V" if "ebgn v < fvbgn v"
  proof (rule multiple_between_unique [OF V(1)])
    show "V dvd fvbgn v" "V dvd ovbgn v + V" using r by simp_all
    show "fvbgn v < ovbgn v + V + V" "ovbgn v + V < fvbgn v + V" using r that by linarith+
  qed
  show "fvbgn v = ebgn v \<and> ovbgn v = ebgn v" if "\<not> ebgn v < fvbgn v"
  proof -
    from that r have e: "fvbgn v = ebgn v" by linarith
    have "ovbgn v = fvbgn v"
    proof (rule multiple_between_unique [OF V(1)])
      show "V dvd ovbgn v" "V dvd fvbgn v" using r by simp_all
      show "ovbgn v < fvbgn v + V" "fvbgn v < ovbgn v + V" using r e by linarith+
    qed
    with e show ?thesis by simp
  qed
  show "ovend v = fvend v + V" if "fvend v < eend v"
  proof (rule multiple_between_unique [OF V(1)])
    show "V dvd ovend v" "V dvd fvend v + V" using r by simp_all
    show "ovend v < fvend v + V + V" "fvend v + V < ovend v + V" using r that by linarith+
  qed
  show "fvend v = eend v \<and> ovend v = eend v" if "\<not> fvend v < eend v"
  proof -
    from that r have e: "fvend v = eend v" by linarith
    have "ovend v = fvend v"
    proof (rule multiple_between_unique [OF V(1)])
      show "V dvd ovend v" "V dvd fvend v" using r by simp_all
      show "ovend v < fvend v + V" "fvend v < ovend v + V" using r e by linarith+
    qed
    with e show ?thesis by simp
  qed
qed

lemma bounds_cluster:
  fixes v :: "'a::len word dim_vars"
  assumes V: "0 < V" "V = fold_pts (dims ctx) ! j"
    and C: "0 < C" "C = cluster_pts (dims ctx) ! j" and VC: "V dvd C"
    and v: "v = dim_ranges ctx sb_idxs j"
    and R: "idx_room ctx sb_idxs j"
  shows "fvbgn v \<le> fcbgn v" "fcend v \<le> fvend v" "V dvd fcbgn v" "V dvd fcend v"
proof -
  note r = dim_ranges_fold_aux [OF V v R] and c = dim_ranges_cluster_aux [OF C v R]
  from c VC show d: "V dvd fcbgn v" "V dvd fcend v" by (blast intro: dvd_trans)+
  from r c have "fvbgn v < fcbgn v + V" "fcend v < fvend v + V" by linarith+
  with d r dvd_less_add_le [OF V(1)] show "fvbgn v \<le> fcbgn v" "fcend v \<le> fvend v"
    by blast+
qed




section \<open>Properties of the reference scalar paths\<close>

lemma scan_dim_unit: "scan_dim b e 1 = [b..e - 1]"
proof (induction b e "1::int" rule: scan_dim.induct)
  case (1 b e)
  show ?case
  proof (cases "b < e")
    case True
    with 1 have "scan_dim b e 1 = b # [b + 1..e - 1]"
      by (subst scan_dim.simps) simp
    also have "\<dots> = [b..e - 1]" using True by (simp add: upto_rec1)
    finally show ?thesis .
  next
    case False
    then show ?thesis by (subst scan_dim.simps) simp
  qed
qed

lemma count_list_map_Cons:
  "count_list (map ((#) x) ps) p = (case p of [] \<Rightarrow> 0 | y # q \<Rightarrow> if x = y then count_list ps q else 0)"
  by (induction ps) (auto split: list.splits)

lemma count_list_concat_Cons:
  "distinct xs \<Longrightarrow>
     count_list (concat (map (\<lambda>x. map ((#) x) ps) xs)) p =
       (case p of [] \<Rightarrow> 0 | y # q \<Rightarrow> if y \<in> set xs then count_list ps q else 0)"
  by (induction xs) (auto simp: count_list_map_Cons split: list.splits)

text \<open>With unit strides the loops visit each point of the region once.\<close>

lemma misc_points_unit:
  assumes "\<forall>t \<in> set ds. snd (snd t) = 1"
  shows "\<exists>ps. misc_points ds = Some ps
          \<and> (\<forall>p. count_list ps p =
                (if length p = length ds
                    \<and> (\<forall>j < length ds. fst (ds ! j) \<le> p ! j \<and> p ! j < fst (snd (ds ! j)))
                 then 1 else 0))"
  using assms
proof (induction ds)
  case Nil
  show ?case by simp
next
  case (Cons t ds)
  obtain b e s where t: "t = (b, e, s)" by (cases t) auto
  with Cons.prems have s: "s = 1" by simp
  let ?box = "\<lambda>ds p. length p = length ds
                 \<and> (\<forall>j < length ds. fst (ds ! j) \<le> p ! j \<and> p ! j < fst (snd (ds ! j)))"
  from Cons obtain ps where ps: "misc_points ds = Some ps"
    "\<And>p. count_list ps p = (if ?box ds p then 1 else 0)"
    by auto
  have box: "?box (t # ds) p \<longleftrightarrow> (case p of [] \<Rightarrow> False | y # q \<Rightarrow> b \<le> y \<and> y < e \<and> ?box ds q)"
    for p
  proof (cases p)
    case Nil
    then show ?thesis by simp
  next
    case (Cons y q)
    have "(\<forall>j < Suc (length ds). fst ((t # ds) ! j) \<le> (y # q) ! j
              \<and> (y # q) ! j < fst (snd ((t # ds) ! j)))
       \<longleftrightarrow> (b \<le> y \<and> y < e) \<and> (\<forall>j < length ds. fst (ds ! j) \<le> q ! j \<and> q ! j < fst (snd (ds ! j)))"
      using t by (simp add: All_less_Suc2)
    with Cons show ?thesis by auto
  qed
  show ?case
  proof (cases "b < e")
    case False
    have "\<not> ?box (t # ds) p" for p
      unfolding box using False by (auto split: list.splits)
    with False t show ?thesis by simp
  next
    case True
    let ?qs = "concat (map (\<lambda>x. map ((#) x) ps) [b..e - 1])"
    have m: "misc_points (t # ds) = Some ?qs"
      using True t s ps(1) by (simp add: scan_dim_unit)
    have "count_list ?qs p = (if ?box (t # ds) p then 1 else 0)" for p
      unfolding box
      by (simp add: count_list_concat_Cons ps(2) split: list.splits)
    with m show ?thesis by blast
  qed
qed

lemma misc_loops_unit:
  assumes "length (end_v idxs) = length (begin_v idxs)"
    and "stride idxs = replicate (length (begin_v idxs)) 1"
  shows "\<exists>ps. misc_loops idxs = Some ps
          \<and> (\<forall>p. count_list ps p = (if in_range (begin_v idxs) (end_v idxs) p then 1 else 0))"
proof -
  let ?ds = "zip (begin_v idxs) (zip (end_v idxs) (stride idxs))"
  have len: "length ?ds = length (begin_v idxs)" using assms by simp
  have "\<forall>t \<in> set ?ds. snd (snd t) = 1"
  proof
    fix t assume "t \<in> set ?ds"
    moreover obtain a c d where "t = (a, c, d)" by (cases t) auto
    ultimately have "(c, d) \<in> set (zip (end_v idxs) (stride idxs))" "snd (snd t) = d"
      by (auto dest: set_zip_rightD)
    then have "snd (snd t) \<in> set (stride idxs)"
      by (auto dest: set_zip_rightD)
    then show "snd (snd t) = 1" using assms(2) by (metis in_set_replicate)
  qed
  from misc_points_unit [OF this] obtain ps where ps: "misc_points ?ds = Some ps"
    "\<And>p. count_list ps p =
       (if length p = length ?ds
           \<and> (\<forall>j < length ?ds. fst (?ds ! j) \<le> p ! j \<and> p ! j < fst (snd (?ds ! j)))
        then 1 else 0)"
    by blast
  have "(length p = length ?ds
           \<and> (\<forall>j < length ?ds. fst (?ds ! j) \<le> p ! j \<and> p ! j < fst (snd (?ds ! j))))
        \<longleftrightarrow> in_range (begin_v idxs) (end_v idxs) p" for p
    using assms by (auto simp: in_range_def)
  with ps show ?thesis by (simp add: misc_loops_def)
qed

lemma count_list_calc_scalar:
  "count_list (map (\<lambda>pt. calc_scalar i pt) ps) (calc_scalar i p) = count_list ps p"
  by (induction ps) auto

lemma count_list_calc_scalar_if:
  "count_list (concat (map (\<lambda>pt. if P pt then [calc_scalar i pt] else []) ps)) (calc_scalar i p)
     = (if P p then count_list ps p else 0)"
  by (induction ps) auto

text \<open>
  C7 (as stated). \<open>calc_nano_block_dbg\<close> tests \<open>is_in_valid_domain\<close> on each point and
  invokes \<open>calc_scalar\<close> iff the test is true. The loop body of \<open>calc_nano_block_dbg2\<close>
  has no such test: for a bundle whose sub-domain excludes the point 0 and the nano-block
  \<open>[0, 1)\<close>, \<open>calc_scalar\<close> is invoked on the point 0.
\<close>

theorem calc_nano_block_dbg_counterexample:
  "\<not> bundle_is_in_valid_domain
       \<lparr>bundle_is_scratch = False, bundle_is_in_valid_step = (<) 0,
        bundle_is_in_valid_domain = (\<noteq>) [0]\<rparr> [0]
   \<and> (calc_nano_block_dbg
        \<lparr>bundle_is_scratch = False, bundle_is_in_valid_step = (<) 0,
         bundle_is_in_valid_domain = (\<noteq>) [0]\<rparr> 0 0
        \<lparr>pico_block_sizes = [4], nano_block_tile_sizes = [4], force_scalar = True\<rparr>
        \<lparr>begin_v = [0], end_v = [8], start = [0], stop = [1], stride = [4],
         tile_size = [4], align = [4], align_ofs = [0]\<rparr> :: 64 word call list option)
     = Some [calc_scalar 0 [0]]"
  by (simp add: calc_nano_block_dbg_def calc_nano_block_dbg2_def misc_loops_def
      create_inner_def set_from_const_def scan_dim_unit)

text \<open>
  C7 (amended). \<open>calc_nano_block_dbg\<close> (via \<open>calc_nano_block_dbg2\<close>) iterates every
  element of the nano-block with stride 1 and invokes \<open>calc_scalar\<close> once on every
  point, without testing \<open>is_in_valid_domain\<close>. \<open>calc_in_domain\<close>, given unit strides,
  iterates every element of its input region and invokes \<open>calc_scalar\<close> once on the point
  iff \<open>is_in_valid_domain\<close> is true of it. No vector or cluster calls occur on these
  paths.
\<close>

theorem scalar_paths:
  "(length (stop micro) = length (start micro) \<and> length (stride micro) = length (start micro)
      \<longrightarrow> (\<exists>calls. calc_nano_block_dbg b ot it settings micro = Some calls
            \<and> (\<forall>c \<in> set calls. \<exists>p. c = calc_scalar ot p)
            \<and> (\<forall>p. count_list calls (calc_scalar ot p)
                     = (if in_range (start micro) (stop micro) p then 1 else 0))))
   \<and> (length (end_v idxs) = length (begin_v idxs)
        \<and> stride idxs = replicate (length (begin_v idxs)) 1
      \<longrightarrow> (\<exists>calls. calc_in_domain b sidx idxs = Some calls
            \<and> (\<forall>c \<in> set calls. \<exists>p. c = calc_scalar sidx p)
            \<and> (\<forall>p. count_list calls (calc_scalar sidx p)
                     = (if in_range (begin_v idxs) (end_v idxs) p
                           \<and> bundle_is_in_valid_domain b p then 1 else 0))))"
proof (intro conjI impI)
  assume a: "length (stop micro) = length (start micro)
      \<and> length (stride micro) = length (start micro)"
  let ?sb = "(create_inner micro)\<lparr>stride := set_from_const (stride (create_inner micro)) 1,
      align := set_from_const (align (create_inner micro)) 1\<rparr>"
  have "length (end_v ?sb) = length (begin_v ?sb)"
    "stride ?sb = replicate (length (begin_v ?sb)) 1"
    using a by (simp_all add: create_inner_def set_from_const_def)
  from misc_loops_unit [OF this] obtain ps where ps: "misc_loops ?sb = Some ps"
    "\<And>p. count_list ps p = (if in_range (start micro) (stop micro) p then 1 else 0)"
    by (auto simp: create_inner_def)
  let ?calls = "map (\<lambda>pt. calc_scalar ot pt) ps"
  have "calc_nano_block_dbg b ot it settings micro = Some ?calls"
    using ps(1) by (simp add: calc_nano_block_dbg_def calc_nano_block_dbg2_def Let_def)
  moreover have "\<forall>c \<in> set ?calls. \<exists>p. c = calc_scalar ot p" by auto
  moreover have "\<forall>p. count_list ?calls (calc_scalar ot p)
                     = (if in_range (start micro) (stop micro) p then 1 else 0)"
    by (simp only: count_list_calc_scalar ps(2) simp_thms)
  ultimately show "\<exists>calls. calc_nano_block_dbg b ot it settings micro = Some calls
            \<and> (\<forall>c \<in> set calls. \<exists>p. c = calc_scalar ot p)
            \<and> (\<forall>p. count_list calls (calc_scalar ot p)
                     = (if in_range (start micro) (stop micro) p then 1 else 0))"
    by blast
next
  assume a: "length (end_v idxs) = length (begin_v idxs)
        \<and> stride idxs = replicate (length (begin_v idxs)) 1"
  then have "length (end_v idxs) = length (begin_v idxs)"
    "stride idxs = replicate (length (begin_v idxs)) 1" by simp_all
  from misc_loops_unit [OF this] obtain ps where ps: "misc_loops idxs = Some ps"
    "\<And>p. count_list ps p = (if in_range (begin_v idxs) (end_v idxs) p then 1 else 0)"
    by blast
  let ?calls = "concat (map (\<lambda>pt. if bundle_is_in_valid_domain b pt
                                  then [calc_scalar sidx pt] else []) ps)"
  have "calc_in_domain b sidx idxs = Some ?calls"
    using ps(1) by (simp add: calc_in_domain_def)
  moreover have "\<forall>c \<in> set ?calls. \<exists>p. c = calc_scalar sidx p" by auto
  moreover have "\<forall>p. count_list ?calls (calc_scalar sidx p)
                     = (if in_range (begin_v idxs) (end_v idxs) p
                           \<and> bundle_is_in_valid_domain b p then 1 else 0)"
    by (simp add: count_list_calc_scalar_if ps(2))
  ultimately show "\<exists>calls. calc_in_domain b sidx idxs = Some calls
            \<and> (\<forall>c \<in> set calls. \<exists>p. c = calc_scalar sidx p)
            \<and> (\<forall>p. count_list calls (calc_scalar sidx p)
                     = (if in_range (begin_v idxs) (end_v idxs) p
                           \<and> bundle_is_in_valid_domain b p then 1 else 0))"
    by blast
qed

theorem scalar_paths_witness:
  "(\<exists>calls. (calc_nano_block_dbg
        \<lparr>bundle_is_scratch = False, bundle_is_in_valid_step = (<) 0,
         bundle_is_in_valid_domain = (\<noteq>) [0]\<rparr> 0 0
        \<lparr>pico_block_sizes = [4], nano_block_tile_sizes = [4], force_scalar = True\<rparr>
        \<lparr>begin_v = [0], end_v = [8], start = [0], stop = [2], stride = [4],
         tile_size = [4], align = [4], align_ofs = [0]\<rparr> :: 64 word call list option)
       = Some calls
      \<and> count_list calls (calc_scalar 0 [0]) = 1 \<and> count_list calls (calc_scalar 0 [2]) = 0)
   \<and> (\<exists>calls. (calc_in_domain
        \<lparr>bundle_is_scratch = False, bundle_is_in_valid_step = (<) 0,
         bundle_is_in_valid_domain = (\<noteq>) [0]\<rparr> 0
        \<lparr>begin_v = [0], end_v = [2], start = [0], stop = [2], stride = [1],
         tile_size = [4], align = [4], align_ofs = [0]\<rparr> :: 64 word call list option)
       = Some calls
      \<and> count_list calls (calc_scalar 0 [0]) = 0 \<and> count_list calls (calc_scalar 0 [1]) = 1)"
proof -
  let ?b = "\<lparr>bundle_is_scratch = False, bundle_is_in_valid_step = (<) 0,
         bundle_is_in_valid_domain = (\<noteq>) [0]\<rparr>"
  let ?s = "\<lparr>pico_block_sizes = [4], nano_block_tile_sizes = [4], force_scalar = True\<rparr>"
  let ?m = "\<lparr>begin_v = [0], end_v = [8], start = [0], stop = [2], stride = [4],
         tile_size = [4], align = [4], align_ofs = [0]\<rparr>"
  let ?i = "\<lparr>begin_v = [0], end_v = [2], start = [0], stop = [2], stride = [1],
         tile_size = [4], align = [4], align_ofs = [0]\<rparr>"
  note t = scalar_paths [where micro = ?m and idxs = ?i and b = ?b and ot = 0 and it = 0
      and settings = ?s and sidx = 0]
  have h1: "length (stop ?m) = length (start ?m) \<and> length (stride ?m) = length (start ?m)"
    by simp
  have h2: "length (end_v ?i) = length (begin_v ?i)
        \<and> stride ?i = replicate (length (begin_v ?i)) 1" by simp
  from t h1 obtain c1 :: "64 word call list"
    where c1: "calc_nano_block_dbg ?b 0 0 ?s ?m = Some c1"
      "\<forall>p. count_list c1 (calc_scalar 0 p) = (if in_range (start ?m) (stop ?m) p then 1 else 0)"
    by blast
  from t h2 obtain c2 :: "64 word call list"
    where c2: "calc_in_domain ?b 0 ?i = Some c2"
      "\<forall>p. count_list c2 (calc_scalar 0 p)
          = (if in_range (begin_v ?i) (end_v ?i) p \<and> bundle_is_in_valid_domain ?b p
             then 1 else 0)"
    by blast
  have "count_list c1 (calc_scalar 0 [0]) = 1" "count_list c1 (calc_scalar 0 [2]) = 0"
    by (simp_all add: c1(2) in_range_def)
  moreover have "count_list c2 (calc_scalar 0 [0]) = 0" "count_list c2 (calc_scalar 0 [1]) = 1"
    by (simp_all add: c2(2) in_range_def)
  ultimately show ?thesis using c1(1) c2(1) by blast
qed

subsection \<open>One pass of the loop\<close>

lemma dim_ranges_type_free:
  "ebgn (dim_ranges ctx sb j :: 'a::len word dim_vars) = ebgn (dim_ranges ctx sb j :: 'b::len word dim_vars)"
  "eend (dim_ranges ctx sb j :: 'a::len word dim_vars) = eend (dim_ranges ctx sb j :: 'b::len word dim_vars)"
  "fcbgn (dim_ranges ctx sb j :: 'a::len word dim_vars) = fcbgn (dim_ranges ctx sb j :: 'b::len word dim_vars)"
  "fcend (dim_ranges ctx sb j :: 'a::len word dim_vars) = fcend (dim_ranges ctx sb j :: 'b::len word dim_vars)"
  "fvbgn (dim_ranges ctx sb j :: 'a::len word dim_vars) = fvbgn (dim_ranges ctx sb j :: 'b::len word dim_vars)"
  "fvend (dim_ranges ctx sb j :: 'a::len word dim_vars) = fvend (dim_ranges ctx sb j :: 'b::len word dim_vars)"
  "ovbgn (dim_ranges ctx sb j :: 'a::len word dim_vars) = ovbgn (dim_ranges ctx sb j :: 'b::len word dim_vars)"
  "ovend (dim_ranges ctx sb j :: 'a::len word dim_vars) = ovend (dim_ranges ctx sb j :: 'b::len word dim_vars)"
  "do_left_pvec (dim_ranges ctx sb j :: 'a::len word dim_vars)
     = do_left_pvec (dim_ranges ctx sb j :: 'b::len word dim_vars)"
  "do_right_pvec (dim_ranges ctx sb j :: 'a::len word dim_vars)
     = do_right_pvec (dim_ranges ctx sb j :: 'b::len word dim_vars)"
  by (simp_all add: dim_ranges_def Let_def)

lemma dim_masked_fields:
  fixes w :: "'a::len word dim_vars"
  assumes "w = dim_masked ctx sb j" "v = dim_ranges ctx sb j"
  shows "ebgn w = ebgn v" "eend w = eend v" "fcbgn w = fcbgn v" "fcend w = fcend v"
    "fvbgn w = fvbgn v" "fvend w = fvend v" "ovbgn w = ovbgn v" "ovend w = ovend v"
    "do_left_fvec w = do_left_fvec v" "do_right_fvec w = do_right_fvec v"
    "do_left_pvec w = do_left_pvec v" "do_right_pvec w = do_right_pvec v"
    "pmask w = fst (build_masks (dims ctx) j v)" "rmask w = snd (build_masks (dims ctx) j v)"
  using assms by (simp_all add: dim_masked_def Let_def)

lemma dim_clusters_iff:
  fixes v :: "'a::len word dim_vars"
  assumes "v = dim_masked ctx sb j"
  shows "dim_clusters ctx sb j \<longleftrightarrow> \<not> overlap v \<and> fcbgn v < fcend v"
  unfolding dim_clusters_def overlap_def Let_def
    dim_masked_fields [OF assms refl]
  by (simp only: dim_ranges_type_free [where 'a = 1 and 'b = 'a])

lemma fixups_eq:
  fixes dc :: bool
  assumes V: "0 < fold_pts (dims ctx) ! j" and R: "idx_room ctx sb j"
  shows "fixups dc (dim_masked ctx sb j :: 'a::len word dim_vars)
           = Inr (dc \<and> dim_clusters ctx sb j, dim_final ctx sb j)"
proof -
  define w :: "'a word dim_vars" where "w = dim_masked ctx sb j"
  define v :: "'a word dim_vars" where "v = dim_ranges ctx sb j"
  note mf = dim_masked_fields [OF w_def v_def]
  note f = dim_ranges_flags [OF v_def]
  note b = bounds_fold [OF V refl v_def R]
  note dc = dim_clusters_iff [OF w_def]
  have fin: "dim_final ctx sb j =
      (if overlap w then
        w\<lparr>pmask := pmask w AND rmask w, rmask := 0,
          do_left_pvec := True, do_right_pvec := False,
          do_left_fvec := False, do_right_fvec := False\<rparr>
      else if fcend w \<le> fcbgn w then
        w\<lparr>fcbgn := fvend w, fcend := fvend w,
          do_left_fvec := (do_left_fvec w \<or> do_right_fvec w), do_right_fvec := False\<rparr>
      else w)"
    by (simp add: dim_final_def w_def Let_def)
  show ?thesis
  proof (cases "overlap w")
    case True
    then have "fvbgn w = ovend w"
      unfolding overlap_def mf using f(3,4) b(3,5) by auto
    with True show ?thesis
      unfolding w_def [symmetric] fin dc by (simp add: fixups_def overlap_def)
  next
    case False
    then show ?thesis
      unfolding w_def [symmetric] fin dc by (auto simp: fixups_def overlap_def Let_def)
  qed
qed

lemma lane_with_coord:
  assumes d: "dims_ok d" and j: "j < nddims d" and c: "0 \<le> c" "c < fold_pts d ! j"
  shows "\<exists>idx < nat (prod_list (fold_pts d)). unlayout (first_inner d) (fold_pts d) idx ! j = c"
proof -
  let ?n = "length (fold_pts d)"
  let ?l = "(replicate ?n 0)[j := c]"
  have "length ?l = ?n" by simp
  moreover have "\<forall>i < ?n. 0 \<le> ?l ! i \<and> ?l ! i < fold_pts d ! i"
  proof (intro allI impI)
    fix i assume i: "i < ?n"
    show "0 \<le> ?l ! i \<and> ?l ! i < fold_pts d ! i"
      using i c d by (cases "i = j") (auto simp: dims_ok_def nth_list_update)
  qed
  ultimately obtain idx where "idx < nat (prod_list (fold_pts d))"
    "unlayout (first_inner d) (fold_pts d) idx = ?l"
    using unlayout_surj by blast
  moreover have "?l ! j = c" using j by (simp add: nddims_def)
  ultimately show ?thesis by auto
qed

text \<open>With room in the range of \<open>idx_t\<close>, the sums of the mask loop do not wrap.\<close>

lemma mask_sums_fit:
  fixes v :: "'a::len word dim_vars"
  assumes V: "0 < V" "V = fold_pts (dims ctx) ! j"
    and v: "v = dim_ranges ctx sb j"
    and R: "idx_room ctx sb j"
    and c: "0 \<le> c" "c < V"
  shows "idx_wrap (ovbgn v + c) = ovbgn v + c" "idx_wrap (fvend v + c) = fvend v + c"
proof -
  note r = dim_ranges_fold_aux [OF V v R]
  have m: "V \<le> max (fold_pts (dims ctx) ! j) (cluster_pts (dims ctx) ! j)"
    using V(2) by simp
  note fb = idx_roomD [OF R V(1) m, of "ebgn v", unfolded r(1), OF disjI1 [OF refl],
      folded r(1)]
  note fe = idx_roomD [OF R V(1) m, of "eend v", unfolded r(2), OF disjI2 [OF refl],
      folded r(2)]
  have "idx_fits (ovbgn v + c)"
    by (rule idx_fits_between [OF fb(2,3)]) (use r c in linarith)+
  then show "idx_wrap (ovbgn v + c) = ovbgn v + c" by (rule idx_wrap_fits)
  have "idx_fits (fvend v + c)"
    by (rule idx_fits_between [OF fe(2,3)]) (use r c in linarith)+
  then show "idx_wrap (fvend v + c) = fvend v + c" by (rule idx_wrap_fits)
qed

lemma masks_nonzero:
  fixes v :: "'a::len word dim_vars"
  assumes d: "dims_ok (dims ctx)" and j: "j < nddims (dims ctx)"
    and n: "nat (prod_list (fold_pts (dims ctx))) \<le> LENGTH('a)"
    and v: "v = dim_ranges ctx sb j"
    and R: "idx_room ctx sb j"
  shows "do_left_pvec v \<Longrightarrow> fst (build_masks (dims ctx) j v) \<noteq> 0"
    and "do_right_pvec v \<Longrightarrow> snd (build_masks (dims ctx) j v) \<noteq> 0"
proof -
  let ?V = "fold_pts (dims ctx) ! j"
  let ?n = "nat (prod_list (fold_pts (dims ctx)))"
  let ?xs = "visit_all_points (first_inner (dims ctx)) (fold_pts (dims ctx))"
  have V: "0 < ?V" using dims_okD(1) [OF d j] .
  note f = dim_ranges_flags [OF v]
  note r = dim_ranges_fold_aux [OF V refl v R]
  note b = bounds_fold [OF V refl v R]
  note w = mask_sums_fit [OF V refl v R]
  have mem: "?xs ! idx \<in> set ?xs" if "idx < ?n" for idx
    using that by (simp add: visit_all_points_length)
  show "fst (build_masks (dims ctx) j v) \<noteq> 0" if l: "do_left_pvec v"
  proof -
    from lane_with_coord [OF d j, of "?V - 1"] V obtain idx
      where idx: "idx < ?n"
        "unlayout (first_inner (dims ctx)) (fold_pts (dims ctx)) idx ! j = ?V - 1"
      by auto
    from l f(3) b(3) r have "ebgn v \<le> ovbgn v + (?V - 1)" by linarith
    then have t: "ebgn v \<le> idx_wrap (ovbgn v + (?V - 1))" using w(1) [of "?V - 1"] V by simp
    show ?thesis
    proof (cases "?n < LENGTH('a)")
      case True
      with t idx have "bit (fst (build_masks (dims ctx) j v)) idx"
        using build_masks_bits(1) [OF True, of v j idx] l by simp
      then show ?thesis by auto
    next
      case False
      with n have e: "?n = LENGTH('a)" by simp
      from t idx have "ebgn v \<le> idx_wrap (ovbgn v + ?xs ! idx ! j)"
        by (simp add: visit_all_points_nth)
      with mem [OF idx(1)] have "bit (fst (build_masks (dims ctx) j v)) (LENGTH('a) - 1)"
        using build_masks_full(1) [OF e, of v j] l by blast
      then show ?thesis by auto
    qed
  qed
  show "snd (build_masks (dims ctx) j v) \<noteq> 0" if l: "do_right_pvec v"
  proof -
    from lane_with_coord [OF d j, of 0] V obtain idx
      where idx: "idx < ?n"
        "unlayout (first_inner (dims ctx)) (fold_pts (dims ctx)) idx ! j = 0"
      by auto
    from l f(4) have "fvend v + 0 < eend v" by simp
    then have t: "idx_wrap (fvend v + 0) < eend v" using w(2) [of 0] V by simp
    show ?thesis
    proof (cases "?n < LENGTH('a)")
      case True
      with t idx have "bit (snd (build_masks (dims ctx) j v)) idx"
        using build_masks_bits(2) [OF True, of v j idx] l by simp
      then show ?thesis by auto
    next
      case False
      with n have e: "?n = LENGTH('a)" by simp
      from t idx have "idx_wrap (fvend v + ?xs ! idx ! j) < eend v"
        by (simp add: visit_all_points_nth)
      with mem [OF idx(1)] have "bit (snd (build_masks (dims ctx) j v)) (LENGTH('a) - 1)"
        using build_masks_full(2) [OF e, of v j] l by blast
      then show ?thesis by auto
    qed
  qed
qed

lemma dim_body_eq:
  fixes st :: "'a::len word nano_vars"
  assumes ok: "dim_ok ctx sb j"
    and n: "nat (prod_list (fold_pts (dims ctx))) \<le> LENGTH('a)"
  shows "dim_body ctx sb st j
       = Inr (save_dim st j (do_clusters st \<and> dim_clusters ctx sb j) (dim_final ctx sb j))"
proof -
  from ok have d: "dims_ok (dims ctx)" and j: "j < nddims (dims ctx)"
    and be: "begin_v sb ! j \<le> end_v sb ! j" and R: "idx_room ctx sb j"
    by (simp_all add: dim_ok_def)
  define v :: "'a word dim_vars" where "v = dim_ranges ctx sb j"
  let ?V = "fold_pts (dims ctx) ! j"
  have V: "0 < ?V" using dims_okD(1) [OF d j] .
  note r = dim_ranges_fold_aux [OF V refl v_def R]
  note b = bounds_fold [OF V refl v_def R]
  from r be have a1: "ovend v \<ge> ovbgn v" by linarith
  have a2: "ovbgn v \<le> fvbgn v" "ovend v \<ge> fvend v" using b by simp_all
  let ?m = "build_masks (dims ctx) j v"
  have w: "v\<lparr>pmask := fst ?m, rmask := snd ?m\<rparr> = dim_masked ctx sb j"
    by (simp add: dim_masked_def v_def Let_def)
  have a3: "(do_left_pvec v \<and> fst ?m = 0) = False" "(do_right_pvec v \<and> snd ?m = 0) = False"
    using masks_nonzero [OF d j n v_def R] by blast+
  have "dim_body ctx sb st j =
      (case fixups (do_clusters st) (v\<lparr>pmask := fst ?m, rmask := snd ?m\<rparr>) of
         Inl e \<Rightarrow> Inl e | Inr (dc, v) \<Rightarrow> Inr (save_dim st j dc v))"
    using a1 a2 by (simp add: dim_body_def v_def [symmetric] Let_def a3)
  also have "\<dots> = Inr (save_dim st j (do_clusters st \<and> dim_clusters ctx sb j)
                        (dim_final ctx sb j))"
    unfolding w by (simp add: fixups_eq [OF V R])
  finally show ?thesis .
qed

subsection \<open>The whole loop\<close>

lemma dim_loop_append:
  "dim_loop ctx sb (xs @ ys) st =
     (case dim_loop ctx sb xs st of Inl e \<Rightarrow> Inl e | Inr st' \<Rightarrow> dim_loop ctx sb ys st')"
  by (induction xs arbitrary: st) (simp_all split: sum.splits)

lemma loop_fold_0: "loop_fold ctx sb 0 st0 = st0"
  by (simp add: loop_fold_def)

lemma loop_fold_Suc:
  "loop_fold ctx sb (Suc m) st0 =
     save_dim (loop_fold ctx sb m st0) m
       (do_clusters (loop_fold ctx sb m st0) \<and> dim_clusters ctx sb m) (dim_final ctx sb m)"
  by (simp add: loop_fold_def)

lemma dim_loop_eq:
  fixes st0 :: "'a::len word nano_vars"
  assumes n: "nat (prod_list (fold_pts (dims ctx))) \<le> LENGTH('a)"
  shows "\<forall>j < m. dim_ok ctx sb j \<Longrightarrow>
           dim_loop ctx sb [0 ..< m] st0 = Inr (loop_fold ctx sb m st0)"
proof (induction m)
  case 0
  show ?case by (simp add: loop_fold_0)
next
  case (Suc m)
  then have ih: "dim_loop ctx sb [0 ..< m] st0 = Inr (loop_fold ctx sb m st0)"
    and ok: "dim_ok ctx sb m" by simp_all
  show ?case
    by (simp add: dim_loop_append ih dim_body_eq [OF ok n] loop_fold_Suc)
qed


subsection \<open>The state after the loop\<close>

lemma lf_do_clusters:
  "do_clusters (loop_fold ctx sb m st0) \<longleftrightarrow>
     do_clusters st0 \<and> (\<forall>j < m. dim_clusters ctx sb j)"
  by (induction m) (auto simp: loop_fold_0 loop_fold_Suc save_dim_def less_Suc_eq)

lemma lf_do_outside_clusters:
  fixes st0 :: "'a::len word nano_vars"
  shows "do_outside_clusters (loop_fold ctx sb m st0) \<longleftrightarrow>
     do_outside_clusters st0 \<or> (\<exists>j < m. any_flag (dim_final ctx sb j :: 'a word dim_vars))"
  by (induction m)
     (auto simp: loop_fold_0 loop_fold_Suc save_dim_def less_Suc_eq any_flag_def)

lemma lf_do_left_fvecs:
  fixes st0 :: "'a::len word nano_vars"
  shows "bit (do_left_fvecs (loop_fold ctx sb m st0)) i \<longleftrightarrow>
     bit (do_left_fvecs st0) i \<or> (i < m \<and> i < LENGTH('a) \<and> do_left_fvec (dim_final ctx sb i :: 'a word dim_vars))"
  by (induction m)
     (auto simp: loop_fold_0 loop_fold_Suc save_dim_def bit_simps less_Suc_eq)

lemma lf_do_right_fvecs:
  fixes st0 :: "'a::len word nano_vars"
  shows "bit (do_right_fvecs (loop_fold ctx sb m st0)) i \<longleftrightarrow>
     bit (do_right_fvecs st0) i \<or> (i < m \<and> i < LENGTH('a) \<and> do_right_fvec (dim_final ctx sb i :: 'a word dim_vars))"
  by (induction m)
     (auto simp: loop_fold_0 loop_fold_Suc save_dim_def bit_simps less_Suc_eq)

lemma lf_do_left_pvecs:
  fixes st0 :: "'a::len word nano_vars"
  shows "bit (do_left_pvecs (loop_fold ctx sb m st0)) i \<longleftrightarrow>
     bit (do_left_pvecs st0) i \<or> (i < m \<and> i < LENGTH('a) \<and> do_left_pvec (dim_final ctx sb i :: 'a word dim_vars))"
  by (induction m)
     (auto simp: loop_fold_0 loop_fold_Suc save_dim_def bit_simps less_Suc_eq)

lemma lf_do_right_pvecs:
  fixes st0 :: "'a::len word nano_vars"
  shows "bit (do_right_pvecs (loop_fold ctx sb m st0)) i \<longleftrightarrow>
     bit (do_right_pvecs st0) i \<or> (i < m \<and> i < LENGTH('a) \<and> do_right_pvec (dim_final ctx sb i :: 'a word dim_vars))"
  by (induction m)
     (auto simp: loop_fold_0 loop_fold_Suc save_dim_def bit_simps less_Suc_eq)

lemma lf_peel_masks_length:
  "length (peel_masks (loop_fold ctx sb m st0)) = length (peel_masks st0)"
  by (induction m) (simp_all add: loop_fold_0 loop_fold_Suc save_dim_def)

lemma lf_peel_masks:
  "i < length (peel_masks st0) \<Longrightarrow>
     peel_masks (loop_fold ctx sb m st0) ! i =
       (if i < m then pmask (dim_final ctx sb i) else peel_masks st0 ! i)"
  by (induction m)
     (simp_all add: loop_fold_0 loop_fold_Suc save_dim_def lf_peel_masks_length
        nth_list_update less_Suc_eq)

lemma lf_rem_masks_length:
  "length (rem_masks (loop_fold ctx sb m st0)) = length (rem_masks st0)"
  by (induction m) (simp_all add: loop_fold_0 loop_fold_Suc save_dim_def)

lemma lf_rem_masks:
  "i < length (rem_masks st0) \<Longrightarrow>
     rem_masks (loop_fold ctx sb m st0) ! i =
       (if i < m then rmask (dim_final ctx sb i) else rem_masks st0 ! i)"
  by (induction m)
     (simp_all add: loop_fold_0 loop_fold_Suc save_dim_def lf_rem_masks_length
        nth_list_update less_Suc_eq)

lemma lf_e_other:
  "start (sb_eidxs (loop_fold ctx sb m st0)) = start (sb_eidxs st0)"
  "stop (sb_eidxs (loop_fold ctx sb m st0)) = stop (sb_eidxs st0)"
  "stride (sb_eidxs (loop_fold ctx sb m st0)) = stride (sb_eidxs st0)"
  "tile_size (sb_eidxs (loop_fold ctx sb m st0)) = tile_size (sb_eidxs st0)"
  "align (sb_eidxs (loop_fold ctx sb m st0)) = align (sb_eidxs st0)"
  "align_ofs (sb_eidxs (loop_fold ctx sb m st0)) = align_ofs (sb_eidxs st0)"
  "length (begin_v (sb_eidxs (loop_fold ctx sb m st0))) = length (begin_v (sb_eidxs st0))"
  "length (end_v (sb_eidxs (loop_fold ctx sb m st0))) = length (end_v (sb_eidxs st0))"
  by (induction m) (simp_all add: loop_fold_0 loop_fold_Suc save_dim_def set_range_def)

lemma lf_e_begin:
  fixes st0 :: "'a::len word nano_vars"
  shows "i < length (begin_v (sb_eidxs st0)) \<Longrightarrow>
     begin_v (sb_eidxs (loop_fold ctx sb m st0)) ! i =
       (if i < m then ebgn (dim_final ctx sb i :: 'a word dim_vars) else begin_v (sb_eidxs st0) ! i)"
  by (induction m)
     (simp_all add: loop_fold_0 loop_fold_Suc save_dim_def set_range_def lf_e_other
        nth_list_update less_Suc_eq)

lemma lf_e_end:
  fixes st0 :: "'a::len word nano_vars"
  shows "i < length (end_v (sb_eidxs st0)) \<Longrightarrow>
     end_v (sb_eidxs (loop_fold ctx sb m st0)) ! i =
       (if i < m then eend (dim_final ctx sb i :: 'a word dim_vars) else end_v (sb_eidxs st0) ! i)"
  by (induction m)
     (simp_all add: loop_fold_0 loop_fold_Suc save_dim_def set_range_def lf_e_other
        nth_list_update less_Suc_eq)

lemma lf_fc_other:
  "start (sb_fcidxs (loop_fold ctx sb m st0)) = start (sb_fcidxs st0)"
  "stop (sb_fcidxs (loop_fold ctx sb m st0)) = stop (sb_fcidxs st0)"
  "stride (sb_fcidxs (loop_fold ctx sb m st0)) = stride (sb_fcidxs st0)"
  "tile_size (sb_fcidxs (loop_fold ctx sb m st0)) = tile_size (sb_fcidxs st0)"
  "align (sb_fcidxs (loop_fold ctx sb m st0)) = align (sb_fcidxs st0)"
  "align_ofs (sb_fcidxs (loop_fold ctx sb m st0)) = align_ofs (sb_fcidxs st0)"
  "length (begin_v (sb_fcidxs (loop_fold ctx sb m st0))) = length (begin_v (sb_fcidxs st0))"
  "length (end_v (sb_fcidxs (loop_fold ctx sb m st0))) = length (end_v (sb_fcidxs st0))"
  by (induction m) (simp_all add: loop_fold_0 loop_fold_Suc save_dim_def set_range_def)

lemma lf_fc_begin:
  fixes st0 :: "'a::len word nano_vars"
  shows "i < length (begin_v (sb_fcidxs st0)) \<Longrightarrow>
     begin_v (sb_fcidxs (loop_fold ctx sb m st0)) ! i =
       (if i < m then fcbgn (dim_final ctx sb i :: 'a word dim_vars) else begin_v (sb_fcidxs st0) ! i)"
  by (induction m)
     (simp_all add: loop_fold_0 loop_fold_Suc save_dim_def set_range_def lf_fc_other
        nth_list_update less_Suc_eq)

lemma lf_fc_end:
  fixes st0 :: "'a::len word nano_vars"
  shows "i < length (end_v (sb_fcidxs st0)) \<Longrightarrow>
     end_v (sb_fcidxs (loop_fold ctx sb m st0)) ! i =
       (if i < m then fcend (dim_final ctx sb i :: 'a word dim_vars) else end_v (sb_fcidxs st0) ! i)"
  by (induction m)
     (simp_all add: loop_fold_0 loop_fold_Suc save_dim_def set_range_def lf_fc_other
        nth_list_update less_Suc_eq)

lemma lf_fv_other:
  "start (sb_fvidxs (loop_fold ctx sb m st0)) = start (sb_fvidxs st0)"
  "stop (sb_fvidxs (loop_fold ctx sb m st0)) = stop (sb_fvidxs st0)"
  "stride (sb_fvidxs (loop_fold ctx sb m st0)) = stride (sb_fvidxs st0)"
  "tile_size (sb_fvidxs (loop_fold ctx sb m st0)) = tile_size (sb_fvidxs st0)"
  "align (sb_fvidxs (loop_fold ctx sb m st0)) = align (sb_fvidxs st0)"
  "align_ofs (sb_fvidxs (loop_fold ctx sb m st0)) = align_ofs (sb_fvidxs st0)"
  "length (begin_v (sb_fvidxs (loop_fold ctx sb m st0))) = length (begin_v (sb_fvidxs st0))"
  "length (end_v (sb_fvidxs (loop_fold ctx sb m st0))) = length (end_v (sb_fvidxs st0))"
  by (induction m) (simp_all add: loop_fold_0 loop_fold_Suc save_dim_def set_range_def)

lemma lf_fv_begin:
  fixes st0 :: "'a::len word nano_vars"
  shows "i < length (begin_v (sb_fvidxs st0)) \<Longrightarrow>
     begin_v (sb_fvidxs (loop_fold ctx sb m st0)) ! i =
       (if i < m then fvbgn (dim_final ctx sb i :: 'a word dim_vars) else begin_v (sb_fvidxs st0) ! i)"
  by (induction m)
     (simp_all add: loop_fold_0 loop_fold_Suc save_dim_def set_range_def lf_fv_other
        nth_list_update less_Suc_eq)

lemma lf_fv_end:
  fixes st0 :: "'a::len word nano_vars"
  shows "i < length (end_v (sb_fvidxs st0)) \<Longrightarrow>
     end_v (sb_fvidxs (loop_fold ctx sb m st0)) ! i =
       (if i < m then fvend (dim_final ctx sb i :: 'a word dim_vars) else end_v (sb_fvidxs st0) ! i)"
  by (induction m)
     (simp_all add: loop_fold_0 loop_fold_Suc save_dim_def set_range_def lf_fv_other
        nth_list_update less_Suc_eq)

lemma lf_ov_other:
  "start (sb_ovidxs (loop_fold ctx sb m st0)) = start (sb_ovidxs st0)"
  "stop (sb_ovidxs (loop_fold ctx sb m st0)) = stop (sb_ovidxs st0)"
  "stride (sb_ovidxs (loop_fold ctx sb m st0)) = stride (sb_ovidxs st0)"
  "tile_size (sb_ovidxs (loop_fold ctx sb m st0)) = tile_size (sb_ovidxs st0)"
  "align (sb_ovidxs (loop_fold ctx sb m st0)) = align (sb_ovidxs st0)"
  "align_ofs (sb_ovidxs (loop_fold ctx sb m st0)) = align_ofs (sb_ovidxs st0)"
  "length (begin_v (sb_ovidxs (loop_fold ctx sb m st0))) = length (begin_v (sb_ovidxs st0))"
  "length (end_v (sb_ovidxs (loop_fold ctx sb m st0))) = length (end_v (sb_ovidxs st0))"
  by (induction m) (simp_all add: loop_fold_0 loop_fold_Suc save_dim_def set_range_def)

lemma lf_ov_begin:
  fixes st0 :: "'a::len word nano_vars"
  shows "i < length (begin_v (sb_ovidxs st0)) \<Longrightarrow>
     begin_v (sb_ovidxs (loop_fold ctx sb m st0)) ! i =
       (if i < m then ovbgn (dim_final ctx sb i :: 'a word dim_vars) else begin_v (sb_ovidxs st0) ! i)"
  by (induction m)
     (simp_all add: loop_fold_0 loop_fold_Suc save_dim_def set_range_def lf_ov_other
        nth_list_update less_Suc_eq)

lemma lf_ov_end:
  fixes st0 :: "'a::len word nano_vars"
  shows "i < length (end_v (sb_ovidxs st0)) \<Longrightarrow>
     end_v (sb_ovidxs (loop_fold ctx sb m st0)) ! i =
       (if i < m then ovend (dim_final ctx sb i :: 'a word dim_vars) else end_v (sb_ovidxs st0) ! i)"
  by (induction m)
     (simp_all add: loop_fold_0 loop_fold_Suc save_dim_def set_range_def lf_ov_other
        nth_list_update less_Suc_eq)

subsection \<open>The state after the loop, from the inputs\<close>

lemma nano_init_fields:
  "begin_v (nano_init d settings sfi micro) = start micro"
  "end_v (nano_init d settings sfi micro) = stop micro"
  "tile_size (nano_init d settings sfi micro) = nano_block_tile_sizes settings"
  "align (nano_init d settings sfi micro) = align micro"
  "stride (nano_init d settings sfi micro) = sfi (pico_block_sizes settings) (create_inner micro)"
  by (simp_all add: nano_init_def create_inner_def Let_def)

lemma nano_ok_room:
  assumes ok: "nano_ok ctx micro" and j: "j < nddims (dims ctx)"
  shows "idx_room ctx (nano_init (dims ctx) settings sfi micro) j"
proof -
  let ?b = "start micro ! j - rank_domain_offsets ctx ! j"
  let ?e = "stop micro ! j - rank_domain_offsets ctx ! j"
  let ?C = "cluster_pts (dims ctx) ! j"
  from ok have d: "dims_ok (dims ctx)" by (simp add: nano_ok_def)
  note D = dims_okD [OF d j]
  from D have "fold_pts (dims ctx) ! j \<le> ?C" by (auto dest: zdvd_imp_le)
  then have m: "max (fold_pts (dims ctx) ! j) ?C = ?C" by simp
  from ok j have be: "?b \<le> ?e" and f: "idx_fits (?b - ?C)" "idx_fits (?e + ?C)"
    by (simp_all add: nano_ok_def)
  have "idx_fits (?b + ?C)" by (rule idx_fits_between [OF f]) (use be D in simp_all)
  moreover have "idx_fits (?e - ?C)" by (rule idx_fits_between [OF f]) (use be D in simp_all)
  ultimately show ?thesis using f by (simp add: idx_room_def Let_def nano_init_fields m)
qed

lemma nano_ok_dim_ok:
  "nano_ok ctx micro \<Longrightarrow> j < nddims (dims ctx) \<Longrightarrow>
     dim_ok ctx (nano_init (dims ctx) settings sfi micro) j"
  using nano_ok_room [of ctx micro j settings sfi]
  by (simp add: nano_ok_def dim_ok_def nano_init_fields)

lemma nano_vars_of_eq:
  assumes ok: "nano_ok ctx micro"
    and n: "nat (prod_list (fold_pts (dims ctx))) \<le> LENGTH('a::len)"
  shows "(nano_vars_of ctx settings sfi micro :: error + 'a word nano_vars)
       = Inr (loop_fold ctx (nano_init (dims ctx) settings sfi micro) (nddims (dims ctx))
                (nano_vars_init (dims ctx) (nano_init (dims ctx) settings sfi micro)))"
  unfolding nano_vars_of_def Let_def
  by (rule dim_loop_eq [OF n]) (simp add: nano_ok_dim_ok [OF ok])

lemma overlap_no_clusters:
  fixes v :: "'a::len word dim_vars"
  assumes d: "dims_ok (dims ctx)" and j: "j < nddims (dims ctx)"
    and v: "v = dim_ranges ctx sb j"
    and R: "idx_room ctx sb j"
    and o: "do_left_pvec v" "do_right_pvec v" "ovbgn v = fvend v"
  shows "fcend v < fcbgn v" "fvend v < fvbgn v" "fvbgn v = ovend v"
proof -
  note D = dims_okD [OF d j]
  note f = dim_ranges_flags [OF v]
  note b = bounds_fold [OF D(1) refl v R]
  note c = bounds_cluster [OF D(1) refl D(2) refl D(3) v R]
  from o f(3,4) have "ebgn v < fvbgn v" "fvend v < eend v" by simp_all
  with b have e: "fvbgn v = ovbgn v + fold_pts (dims ctx) ! j"
    "ovend v = fvend v + fold_pts (dims ctx) ! j" by simp_all
  from e o(3) D(1) show fv: "fvend v < fvbgn v" by linarith
  with c show "fcend v < fcbgn v" by linarith
  from e o(3) show "fvbgn v = ovend v" by linarith
qed




lemma final_flag_bits:
  fixes st :: "'a::len word nano_vars"
  assumes "st = loop_fold ctx sb n (nano_vars_init d sb0)" "j < n" "n \<le> LENGTH('a)"
  shows "bit (do_left_fvecs st) j \<longleftrightarrow> do_left_fvec (dim_final ctx sb j :: 'a word dim_vars)"
    "bit (do_right_fvecs st) j \<longleftrightarrow> do_right_fvec (dim_final ctx sb j :: 'a word dim_vars)"
    "bit (do_left_pvecs st) j \<longleftrightarrow> do_left_pvec (dim_final ctx sb j :: 'a word dim_vars)"
    "bit (do_right_pvecs st) j \<longleftrightarrow> do_right_pvec (dim_final ctx sb j :: 'a word dim_vars)"
  using assms
  by (simp_all add: lf_do_left_fvecs lf_do_right_fvecs lf_do_left_pvecs lf_do_right_pvecs
      nano_vars_init_def Let_def)

section \<open>Normalization of the ranges\<close>

lemma normalize_loop_ok:
  "\<forall>j \<in> set js. imod_flr (orig ! j) (fold_pts d ! j) = 0 \<Longrightarrow>
     \<exists>r. normalize_loop d orig js norm = Inr r \<and> length r = length norm
       \<and> (\<forall>i < length norm. r ! i = (if i \<in> set js then idiv_flr (orig ! i) (fold_pts d ! i)
                                       else norm ! i))"
proof (induction js arbitrary: norm)
  case Nil
  show ?case by simp
next
  case (Cons j js)
  let ?norm = "norm[j := idiv_flr (orig ! j) (fold_pts d ! j)]"
  from Cons.prems have "\<forall>j \<in> set js. imod_flr (orig ! j) (fold_pts d ! j) = 0" by simp
  from Cons.IH [OF this, of ?norm] obtain r
    where r: "normalize_loop d orig js ?norm = Inr r" "length r = length norm"
      "\<forall>i < length norm. r ! i = (if i \<in> set js then idiv_flr (orig ! i) (fold_pts d ! i)
                                    else ?norm ! i)"
    by auto
  have "normalize_loop d orig (j # js) norm = Inr r"
    using Cons.prems r(1) by (simp add: Let_def)
  moreover have "\<forall>i < length norm. r ! i =
      (if i \<in> set (j # js) then idiv_flr (orig ! i) (fold_pts d ! i) else norm ! i)"
    using r(3) by (auto simp: nth_list_update)
  ultimately show ?case using r(2) by blast
qed

lemma normalize_loop_fail:
  "\<exists>j \<in> set js. imod_flr (orig ! j) (fold_pts d ! j) \<noteq> 0 \<Longrightarrow>
     normalize_loop d orig js norm = Inl assert_fail"
  by (induction js arbitrary: norm) (auto simp: Let_def)

lemma aligned_imod:
  "aligned d x \<longleftrightarrow>
     length x = nddims d \<and> (\<forall>j \<in> set [0 ..< nddims d]. imod_flr (x ! j) (fold_pts d ! j) = 0)"
  by (auto simp: aligned_def imod_flr_def mod_eq_0_iff_dvd)

lemma normalize_indices_aligned:
  assumes "aligned d x"
  shows "normalize_indices d x = Inr (norm_of d x)"
proof -
  from assms have len: "length x = nddims d"
    and z: "\<forall>j \<in> set [0 ..< nddims d]. imod_flr (x ! j) (fold_pts d ! j) = 0"
    by (simp_all add: aligned_imod)
  from normalize_loop_ok [OF z, of x] obtain r
    where r: "normalize_loop d x [0 ..< nddims d] x = Inr r" "length r = length x"
      "\<forall>i < length x. r ! i = (if i \<in> set [0 ..< nddims d]
                                then idiv_flr (x ! i) (fold_pts d ! i) else x ! i)"
    by blast
  have "r = norm_of d x"
    using r(2,3) len by (intro nth_equalityI) (simp_all add: norm_of_def)
  with r(1) len show ?thesis by (simp add: normalize_indices_def)
qed

lemma normalize_indices_not_aligned:
  assumes "\<not> aligned d x"
  shows "normalize_indices d x = Inl assert_fail"
proof (cases "length x = nddims d")
  case False
  then show ?thesis by (simp add: normalize_indices_def)
next
  case True
  with assms have "\<exists>j \<in> set [0 ..< nddims d]. imod_flr (x ! j) (fold_pts d ! j) \<noteq> 0"
    by (simp add: aligned_imod)
  from normalize_loop_fail [OF this] True show ?thesis by (simp add: normalize_indices_def)
qed

lemma normalize_indices_iff:
  "(\<exists>r. normalize_indices d x = Inr r) \<longleftrightarrow> aligned d x"
proof (cases "aligned d x")
  case True
  with normalize_indices_aligned [of d x] show ?thesis by simp
next
  case False
  with normalize_indices_not_aligned [of d x] show ?thesis by simp
qed


lemma normalize_indices_scan_aligned:
  assumes "aligned d (begin_v s)" "aligned d (end_v s)" "aligned d (tile_size s)"
    "aligned d (align s)" "aligned d (stride s)"
  shows "normalize_indices_scan d s =
     Inr (s\<lparr>begin_v := norm_of d (begin_v s), start := norm_of d (begin_v s),
            end_v := norm_of d (end_v s), stop := norm_of d (end_v s),
            tile_size := norm_of d (tile_size s), align := norm_of d (align s),
            stride := norm_of d (stride s)\<rparr>)"
  using assms by (simp add: normalize_indices_scan_def normalize_indices_aligned)

lemma normalize_indices_scan_iff:
  "(\<exists>r. normalize_indices_scan d s = Inr r) \<longleftrightarrow>
     aligned d (begin_v s) \<and> aligned d (end_v s) \<and> aligned d (tile_size s)
     \<and> aligned d (align s) \<and> aligned d (stride s)"
proof
  assume "\<exists>r. normalize_indices_scan d s = Inr r"
  then have "(\<exists>r. normalize_indices d (begin_v s) = Inr r)
      \<and> (\<exists>r. normalize_indices d (end_v s) = Inr r)
      \<and> (\<exists>r. normalize_indices d (tile_size s) = Inr r)
      \<and> (\<exists>r. normalize_indices d (align s) = Inr r)
      \<and> (\<exists>r. normalize_indices d (stride s) = Inr r)"
    by (auto simp: normalize_indices_scan_def split: sum.splits)
  then show "aligned d (begin_v s) \<and> aligned d (end_v s) \<and> aligned d (tile_size s)
     \<and> aligned d (align s) \<and> aligned d (stride s)"
    by (simp only: normalize_indices_iff)
next
  assume "aligned d (begin_v s) \<and> aligned d (end_v s) \<and> aligned d (tile_size s)
     \<and> aligned d (align s) \<and> aligned d (stride s)"
  then show "\<exists>r. normalize_indices_scan d s = Inr r"
    using normalize_indices_scan_aligned [of d s] by blast
qed

subsection \<open>The variables of a dim after the special cases\<close>

lemma dim_final_fields:
  fixes f w v :: "'a::len word dim_vars"
  assumes f: "f = dim_final ctx sb j" and w: "w = dim_masked ctx sb j"
  shows "ebgn f = ebgn w" "eend f = eend w" "fvbgn f = fvbgn w" "fvend f = fvend w"
    "ovbgn f = ovbgn w" "ovend f = ovend w"
    "fcbgn f = (if \<not> overlap w \<and> fcend w \<le> fcbgn w then fvend w else fcbgn w)"
    "fcend f = (if \<not> overlap w \<and> fcend w \<le> fcbgn w then fvend w else fcend w)"
    "do_left_pvec f \<longleftrightarrow> do_left_pvec w"
    "do_right_pvec f \<longleftrightarrow> \<not> overlap w \<and> do_right_pvec w"
    "do_left_fvec f \<longleftrightarrow>
       \<not> overlap w \<and> (if fcend w \<le> fcbgn w then do_left_fvec w \<or> do_right_fvec w
                       else do_left_fvec w)"
    "do_right_fvec f \<longleftrightarrow> \<not> overlap w \<and> \<not> fcend w \<le> fcbgn w \<and> do_right_fvec w"
    "pmask f = (if overlap w then pmask w AND rmask w else pmask w)"
    "rmask f = (if overlap w then 0 else rmask w)"
  unfolding f dim_final_def w [symmetric] Let_def
  by (auto simp: overlap_def)

lemma dim_final_aligned:
  fixes f :: "'a::len word dim_vars"
  assumes d: "dims_ok (dims ctx)" and j: "j < nddims (dims ctx)"
    and f: "f = dim_final ctx sb j"
    and R: "idx_room ctx sb j"
  shows "fold_pts (dims ctx) ! j dvd fcbgn f" "fold_pts (dims ctx) ! j dvd fcend f"
    "fold_pts (dims ctx) ! j dvd fvbgn f" "fold_pts (dims ctx) ! j dvd fvend f"
    "fold_pts (dims ctx) ! j dvd ovbgn f" "fold_pts (dims ctx) ! j dvd ovend f"
proof -
  define w :: "'a word dim_vars" where "w = dim_masked ctx sb j"
  define v :: "'a word dim_vars" where "v = dim_ranges ctx sb j"
  note D = dims_okD [OF d j]
  note ff = dim_final_fields [OF f w_def]
  note mf = dim_masked_fields [OF w_def v_def]
  note r = dim_ranges_fold_aux [OF D(1) refl v_def R]
  note c = bounds_cluster [OF D(1) refl D(2) refl D(3) v_def R]
  show "fold_pts (dims ctx) ! j dvd fcbgn f" "fold_pts (dims ctx) ! j dvd fcend f"
    "fold_pts (dims ctx) ! j dvd fvbgn f" "fold_pts (dims ctx) ! j dvd fvend f"
    "fold_pts (dims ctx) ! j dvd ovbgn f" "fold_pts (dims ctx) ! j dvd ovend f"
    unfolding ff mf using r c by simp_all
qed


subsection \<open>The ranges after the loop\<close>

lemma final_lengths:
  fixes st :: "'a::len word nano_vars"
  assumes ok: "nano_ok ctx micro" and sb: "sb = nano_init (dims ctx) settings sfi micro"
    and st: "st = loop_fold ctx sb m (nano_vars_init (dims ctx) sb)"
  shows "length (begin_v (sb_eidxs st)) = nddims (dims ctx)"
    "length (end_v (sb_eidxs st)) = nddims (dims ctx)"
    "length (begin_v (sb_fcidxs st)) = nddims (dims ctx)"
    "length (end_v (sb_fcidxs st)) = nddims (dims ctx)"
    "length (begin_v (sb_fvidxs st)) = nddims (dims ctx)"
    "length (end_v (sb_fvidxs st)) = nddims (dims ctx)"
    "length (begin_v (sb_ovidxs st)) = nddims (dims ctx)"
    "length (end_v (sb_ovidxs st)) = nddims (dims ctx)"
    "length (peel_masks st) = nddims (dims ctx)"
    "length (rem_masks st) = nddims (dims ctx)"
  using ok unfolding st sb
  by (simp_all add: lf_e_other lf_fc_other lf_fv_other lf_ov_other lf_peel_masks_length
      lf_rem_masks_length nano_vars_init_def nano_init_fields nano_ok_def Let_def)

lemma final_inputs:
  fixes st :: "'a::len word nano_vars"
  assumes sb: "sb = nano_init (dims ctx) settings sfi micro"
    and st: "st = loop_fold ctx sb m (nano_vars_init (dims ctx) sb)"
  shows "tile_size (sb_fcidxs st) = nano_block_tile_sizes settings"
    "align (sb_fcidxs st) = align micro"
    "stride (sb_fcidxs st) = sfi (pico_block_sizes settings) (create_inner micro)"
    "tile_size (sb_fvidxs st) = nano_block_tile_sizes settings"
    "align (sb_fvidxs st) = align micro"
    "stride (sb_fvidxs st) = sfi (pico_block_sizes settings) (create_inner micro)"
    "tile_size (sb_ovidxs st) = nano_block_tile_sizes settings"
    "align (sb_ovidxs st) = align micro"
    "stride (sb_ovidxs st) = sfi (pico_block_sizes settings) (create_inner micro)"
  unfolding st sb
  by (simp_all add: lf_fc_other lf_fv_other lf_ov_other nano_vars_init_def nano_init_fields
      Let_def)

lemma final_ranges:
  fixes st :: "'a::len word nano_vars"
  assumes ok: "nano_ok ctx micro" and sb: "sb = nano_init (dims ctx) settings sfi micro"
    and st: "st = loop_fold ctx sb (nddims (dims ctx)) (nano_vars_init (dims ctx) sb)"
    and j: "j < nddims (dims ctx)"
  shows "begin_v (sb_eidxs st) ! j = ebgn (dim_final ctx sb j :: 'a word dim_vars)"
    "end_v (sb_eidxs st) ! j = eend (dim_final ctx sb j :: 'a word dim_vars)"
    "begin_v (sb_fcidxs st) ! j = fcbgn (dim_final ctx sb j :: 'a word dim_vars)"
    "end_v (sb_fcidxs st) ! j = fcend (dim_final ctx sb j :: 'a word dim_vars)"
    "begin_v (sb_fvidxs st) ! j = fvbgn (dim_final ctx sb j :: 'a word dim_vars)"
    "end_v (sb_fvidxs st) ! j = fvend (dim_final ctx sb j :: 'a word dim_vars)"
    "begin_v (sb_ovidxs st) ! j = ovbgn (dim_final ctx sb j :: 'a word dim_vars)"
    "end_v (sb_ovidxs st) ! j = ovend (dim_final ctx sb j :: 'a word dim_vars)"
    "peel_masks st ! j = pmask (dim_final ctx sb j)"
    "rem_masks st ! j = rmask (dim_final ctx sb j)"
proof -
  let ?st0 = "nano_vars_init (dims ctx) sb :: 'a word nano_vars"
  have l: "j < length (begin_v (sb_eidxs ?st0))" "j < length (end_v (sb_eidxs ?st0))"
    "j < length (begin_v (sb_fcidxs ?st0))" "j < length (end_v (sb_fcidxs ?st0))"
    "j < length (begin_v (sb_fvidxs ?st0))" "j < length (end_v (sb_fvidxs ?st0))"
    "j < length (begin_v (sb_ovidxs ?st0))" "j < length (end_v (sb_ovidxs ?st0))"
    "j < length (peel_masks ?st0)" "j < length (rem_masks ?st0)"
    using ok j unfolding sb
    by (simp_all add: nano_vars_init_def nano_init_fields nano_ok_def Let_def)
  show "begin_v (sb_eidxs st) ! j = ebgn (dim_final ctx sb j :: 'a word dim_vars)"
    unfolding st using lf_e_begin [OF l(1), of ctx sb "nddims (dims ctx)"] j by simp
  show "end_v (sb_eidxs st) ! j = eend (dim_final ctx sb j :: 'a word dim_vars)"
    unfolding st using lf_e_end [OF l(2), of ctx sb "nddims (dims ctx)"] j by simp
  show "begin_v (sb_fcidxs st) ! j = fcbgn (dim_final ctx sb j :: 'a word dim_vars)"
    unfolding st using lf_fc_begin [OF l(3), of ctx sb "nddims (dims ctx)"] j by simp
  show "end_v (sb_fcidxs st) ! j = fcend (dim_final ctx sb j :: 'a word dim_vars)"
    unfolding st using lf_fc_end [OF l(4), of ctx sb "nddims (dims ctx)"] j by simp
  show "begin_v (sb_fvidxs st) ! j = fvbgn (dim_final ctx sb j :: 'a word dim_vars)"
    unfolding st using lf_fv_begin [OF l(5), of ctx sb "nddims (dims ctx)"] j by simp
  show "end_v (sb_fvidxs st) ! j = fvend (dim_final ctx sb j :: 'a word dim_vars)"
    unfolding st using lf_fv_end [OF l(6), of ctx sb "nddims (dims ctx)"] j by simp
  show "begin_v (sb_ovidxs st) ! j = ovbgn (dim_final ctx sb j :: 'a word dim_vars)"
    unfolding st using lf_ov_begin [OF l(7), of ctx sb "nddims (dims ctx)"] j by simp
  show "end_v (sb_ovidxs st) ! j = ovend (dim_final ctx sb j :: 'a word dim_vars)"
    unfolding st using lf_ov_end [OF l(8), of ctx sb "nddims (dims ctx)"] j by simp
  show "peel_masks st ! j = pmask (dim_final ctx sb j)"
    unfolding st using lf_peel_masks [OF l(9), of ctx sb "nddims (dims ctx)"] j by simp
  show "rem_masks st ! j = rmask (dim_final ctx sb j)"
    unfolding st using lf_rem_masks [OF l(10), of ctx sb "nddims (dims ctx)"] j by simp
qed

lemma final_aligned:
  fixes st :: "'a::len word nano_vars"
  assumes ok: "nano_ok ctx micro" and sb: "sb = nano_init (dims ctx) settings sfi micro"
    and st: "st = loop_fold ctx sb (nddims (dims ctx)) (nano_vars_init (dims ctx) sb)"
  shows "aligned (dims ctx) (begin_v (sb_fcidxs st))" "aligned (dims ctx) (end_v (sb_fcidxs st))"
    "aligned (dims ctx) (begin_v (sb_fvidxs st))" "aligned (dims ctx) (end_v (sb_fvidxs st))"
    "aligned (dims ctx) (begin_v (sb_ovidxs st))" "aligned (dims ctx) (end_v (sb_ovidxs st))"
proof -
  from ok have d: "dims_ok (dims ctx)" by (simp add: nano_ok_def)
  note l = final_lengths [OF ok sb st]
  note r = final_ranges [OF ok sb st]
  note a = dim_final_aligned [OF d _ refl nano_ok_room [OF ok, of _ settings sfi, folded sb],
      where 'a = 'a]
  show "aligned (dims ctx) (begin_v (sb_fcidxs st))" "aligned (dims ctx) (end_v (sb_fcidxs st))"
    "aligned (dims ctx) (begin_v (sb_fvidxs st))" "aligned (dims ctx) (end_v (sb_fvidxs st))"
    "aligned (dims ctx) (begin_v (sb_ovidxs st))" "aligned (dims ctx) (end_v (sb_ovidxs st))"
    unfolding aligned_def using l r a by simp_all
qed




section \<open>The boundary parts\<close>

lemma part_fold_0:
  "part_fold st nfc nfv nov cdims lr 0 =
     \<lparr>fv_part = nfc, pv_part = nfv, fv_needed = True, pv_needed = True,
      pv_mask = - 1, nsel = 0\<rparr>"
  by (simp add: part_fold_def)

lemma part_fold_Suc:
  "part_fold st nfc nfv nov cdims lr (Suc m) =
     part_dim st nfc nfv nov cdims lr (part_fold st nfc nfv nov cdims lr m) m"
  by (simp add: part_fold_def)

lemma part_vars_of_fold:
  "part_vars_of d st nfc nfv nov cdims lr = part_fold st nfc nfv nov cdims lr (nddims d)"
  by (simp add: part_vars_of_def part_fold_def)

lemma part_fold_nsel:
  "nsel (part_fold st nfc nfv nov cdims lr m) = length (filter (is_bit_set cdims) [0 ..< m])"
  by (induction m) (simp_all add: part_fold_0 part_fold_Suc part_dim_def Let_def)

text \<open>One pass of the loop, by the side of the dim.\<close>

lemma part_fold_step:
  "part_fold st nfc nfv nov cdims lr (Suc m) =
     (let pt = part_fold st nfc nfv nov cdims lr m in
      case side_of cdims lr m of
        side_mid \<Rightarrow> pt
      | side_left \<Rightarrow>
          pt\<lparr>nsel := nsel pt + 1,
             fv_part := set_range (fv_part pt) m (begin_v nfv ! m) (begin_v nfc ! m),
             fv_needed := (fv_needed pt \<and> is_bit_set (do_left_fvecs st) m),
             pv_part := set_range (pv_part pt) m (begin_v nov ! m) (begin_v nfv ! m),
             pv_mask := pv_mask pt AND peel_masks st ! m,
             pv_needed := (pv_needed pt \<and> is_bit_set (do_left_pvecs st) m)\<rparr>
      | side_right \<Rightarrow>
          pt\<lparr>nsel := nsel pt + 1,
             fv_part := set_range (fv_part pt) m (end_v nfc ! m) (end_v nfv ! m),
             fv_needed := (fv_needed pt \<and> is_bit_set (do_right_fvecs st) m),
             pv_part := set_range (pv_part pt) m (end_v nfv ! m) (end_v nov ! m),
             pv_mask := pv_mask pt AND rem_masks st ! m,
             pv_needed := (pv_needed pt \<and> is_bit_set (do_right_pvecs st) m)\<rparr>)"
  unfolding part_fold_Suc side_of_def part_fold_nsel [symmetric, of cdims m st nfc nfv nov lr]
  by (auto simp: part_dim_def Let_def)

lemma part_fold_needed:
  "fv_needed (part_fold st nfc nfv nov cdims lr m) \<longleftrightarrow>
     (\<forall>j < m. (side_of cdims lr j = side_left \<longrightarrow> is_bit_set (do_left_fvecs st) j)
           \<and> (side_of cdims lr j = side_right \<longrightarrow> is_bit_set (do_right_fvecs st) j))"
  "pv_needed (part_fold st nfc nfv nov cdims lr m) \<longleftrightarrow>
     (\<forall>j < m. (side_of cdims lr j = side_left \<longrightarrow> is_bit_set (do_left_pvecs st) j)
           \<and> (side_of cdims lr j = side_right \<longrightarrow> is_bit_set (do_right_pvecs st) j))"
  by (induction m)
     (auto simp: part_fold_0 part_fold_step Let_def less_Suc_eq split: side.splits)

lemma part_fold_mask:
  fixes st :: "'a::len word nano_vars"
  shows "bit (pv_mask (part_fold st nfc nfv nov cdims lr m)) idx \<longleftrightarrow>
     idx < LENGTH('a)
     \<and> (\<forall>j < m. (side_of cdims lr j = side_left \<longrightarrow> bit (peel_masks st ! j) idx)
             \<and> (side_of cdims lr j = side_right \<longrightarrow> bit (rem_masks st ! j) idx))"
  by (induction m)
     (auto simp: part_fold_0 part_fold_step Let_def less_Suc_eq bit_simps
        dest: bit_imp_le_length split: side.splits)

lemma part_fold_other:
  "start (fv_part (part_fold st nfc nfv nov cdims lr m)) = start nfc"
  "stop (fv_part (part_fold st nfc nfv nov cdims lr m)) = stop nfc"
  "stride (fv_part (part_fold st nfc nfv nov cdims lr m)) = stride nfc"
  "tile_size (fv_part (part_fold st nfc nfv nov cdims lr m)) = tile_size nfc"
  "align (fv_part (part_fold st nfc nfv nov cdims lr m)) = align nfc"
  "align_ofs (fv_part (part_fold st nfc nfv nov cdims lr m)) = align_ofs nfc"
  "length (begin_v (fv_part (part_fold st nfc nfv nov cdims lr m))) = length (begin_v nfc)"
  "length (end_v (fv_part (part_fold st nfc nfv nov cdims lr m))) = length (end_v nfc)"
  "start (pv_part (part_fold st nfc nfv nov cdims lr m)) = start nfv"
  "stop (pv_part (part_fold st nfc nfv nov cdims lr m)) = stop nfv"
  "stride (pv_part (part_fold st nfc nfv nov cdims lr m)) = stride nfv"
  "tile_size (pv_part (part_fold st nfc nfv nov cdims lr m)) = tile_size nfv"
  "align (pv_part (part_fold st nfc nfv nov cdims lr m)) = align nfv"
  "align_ofs (pv_part (part_fold st nfc nfv nov cdims lr m)) = align_ofs nfv"
  "length (begin_v (pv_part (part_fold st nfc nfv nov cdims lr m))) = length (begin_v nfv)"
  "length (end_v (pv_part (part_fold st nfc nfv nov cdims lr m))) = length (end_v nfv)"
  by (induction m)
     (simp_all add: part_fold_0 part_fold_step Let_def set_range_def split: side.splits)

lemma part_fold_fv_range:
  assumes "j < length (begin_v nfc)" "j < length (end_v nfc)"
  shows "begin_v (fv_part (part_fold st nfc nfv nov cdims lr m)) ! j =
       (if j < m then (case side_of cdims lr j of
                          side_left \<Rightarrow> begin_v nfv ! j
                        | side_mid \<Rightarrow> begin_v nfc ! j
                        | side_right \<Rightarrow> end_v nfc ! j)
        else begin_v nfc ! j)"
    and "end_v (fv_part (part_fold st nfc nfv nov cdims lr m)) ! j =
       (if j < m then (case side_of cdims lr j of
                          side_left \<Rightarrow> begin_v nfc ! j
                        | side_mid \<Rightarrow> end_v nfc ! j
                        | side_right \<Rightarrow> end_v nfv ! j)
        else end_v nfc ! j)"
  using assms
  by (induction m)
     (auto simp: part_fold_0 part_fold_step Let_def set_range_def part_fold_other
        nth_list_update less_Suc_eq split: side.splits)

lemma part_fold_pv_range:
  assumes "j < length (begin_v nfv)" "j < length (end_v nfv)"
  shows "begin_v (pv_part (part_fold st nfc nfv nov cdims lr m)) ! j =
       (if j < m then (case side_of cdims lr j of
                          side_left \<Rightarrow> begin_v nov ! j
                        | side_mid \<Rightarrow> begin_v nfv ! j
                        | side_right \<Rightarrow> end_v nfv ! j)
        else begin_v nfv ! j)"
    and "end_v (pv_part (part_fold st nfc nfv nov cdims lr m)) ! j =
       (if j < m then (case side_of cdims lr j of
                          side_left \<Rightarrow> begin_v nfv ! j
                        | side_mid \<Rightarrow> end_v nfv ! j
                        | side_right \<Rightarrow> end_v nov ! j)
        else end_v nfv ! j)"
  using assms
  by (induction m)
     (auto simp: part_fold_0 part_fold_step Let_def set_range_def part_fold_other
        nth_list_update less_Suc_eq split: side.splits)





section \<open>The partition of the nano-block\<close>

subsection \<open>One dim\<close>

text \<open>The facts about the variables of a dim after the special cases.\<close>

lemma dim_final_order:
  fixes f w :: "'a::len word dim_vars"
  assumes ok: "dim_ok ctx sb j" and f: "f = dim_final ctx sb j"
    and w: "w = dim_masked ctx sb j"
  shows "ovbgn f \<le> ebgn f" "ebgn f \<le> eend f" "eend f \<le> ovend f"
    "ebgn f \<le> fvbgn f" "fvend f \<le> eend f"
    "\<not> overlap w \<Longrightarrow> fvbgn f \<le> fvend f"
    "\<not> overlap w \<Longrightarrow> fvbgn f \<le> fcbgn f \<and> fcbgn f \<le> fcend f \<and> fcend f \<le> fvend f"
    "overlap w \<Longrightarrow> fvend f < fvbgn f \<and> fcend f < fcbgn f \<and> ovbgn f = fvend f
        \<and> fvbgn f = ovend f"
    "do_left_pvec w \<longleftrightarrow> ebgn f < fvbgn f" "do_right_pvec w \<longleftrightarrow> fvend f < eend f"
    "\<not> overlap w \<Longrightarrow> fvbgn f < fcbgn f \<Longrightarrow> do_left_fvec f"
    "\<not> overlap w \<Longrightarrow> fcend f < fvend f \<Longrightarrow> do_right_fvec f"
    "overlap w \<Longrightarrow> \<not> do_left_fvec f \<and> \<not> do_right_fvec f \<and> \<not> do_right_pvec f"
    "ovbgn f < fvbgn f \<Longrightarrow> fvbgn f = ovbgn f + fold_pts (dims ctx) ! j"
    "fvend f < ovend f \<Longrightarrow> ovend f = fvend f + fold_pts (dims ctx) ! j"
proof -
  from ok have d: "dims_ok (dims ctx)" and j: "j < nddims (dims ctx)"
    and be: "begin_v sb ! j \<le> end_v sb ! j" and R: "idx_room ctx sb j"
    by (simp_all add: dim_ok_def)
  define v :: "'a word dim_vars" where "v = dim_ranges ctx sb j"
  let ?V = "fold_pts (dims ctx) ! j"
  note D = dims_okD [OF d j]
  note ff = dim_final_fields [OF f w]
  note mf = dim_masked_fields [OF w v_def]
  note fl = dim_ranges_flags [OF v_def]
  note r = dim_ranges_fold_aux [OF D(1) refl v_def R]
  note b = bounds_fold [OF D(1) refl v_def R]
  note c = bounds_cluster [OF D(1) refl D(2) refl D(3) v_def R]
  have ee: "ebgn v \<le> eend v" using r(1,2) be by simp
  have o: "overlap w \<longleftrightarrow> do_left_pvec v \<and> do_right_pvec v \<and> ovbgn v = fvend v"
    by (simp add: overlap_def mf)
  show "ovbgn f \<le> ebgn f" "ebgn f \<le> eend f" "eend f \<le> ovend f"
    "ebgn f \<le> fvbgn f" "fvend f \<le> eend f"
    unfolding ff mf using r ee by simp_all
  have nov: "fvbgn v \<le> fvend v" if "\<not> overlap w"
  proof (rule ccontr)
    assume "\<not> fvbgn v \<le> fvend v"
    then have lt: "fvend v < fvbgn v" by simp
    have "fvend v + ?V \<le> fvbgn v"
      using lt r(3,6) D(1) dvd_less_add_le [OF D(1), of "fvend v + ?V" "fvbgn v"] by simp
    with r ee have l: "ebgn v < fvbgn v" and rr: "fvend v < eend v" by linarith+
    from b(3) [OF l] have e1: "fvbgn v = ovbgn v + ?V" .
    have "ovbgn v \<le> fvend v"
      using r ee dvd_less_add_le [OF D(1), of "ovbgn v" "fvend v"] by simp
    moreover have "fvend v \<le> ovbgn v" using \<open>fvend v + ?V \<le> fvbgn v\<close> e1 by simp
    ultimately have "ovbgn v = fvend v" by simp
    with l rr fl(3,4) o that show False by simp
  qed
  show "fvbgn f \<le> fvend f" if "\<not> overlap w"
    unfolding ff mf using nov [OF that] .
  show "fvbgn f \<le> fcbgn f \<and> fcbgn f \<le> fcend f \<and> fcend f \<le> fvend f" if "\<not> overlap w"
    unfolding ff mf using nov [OF that] that c by auto
  show "fvend f < fvbgn f \<and> fcend f < fcbgn f \<and> ovbgn f = fvend f \<and> fvbgn f = ovend f"
    if "overlap w"
    unfolding ff mf using that o overlap_no_clusters [OF d j v_def R] by auto
  show "do_left_pvec w \<longleftrightarrow> ebgn f < fvbgn f" "do_right_pvec w \<longleftrightarrow> fvend f < eend f"
    unfolding ff mf using fl by auto
  show "do_left_fvec f" if "\<not> overlap w" "fvbgn f < fcbgn f"
    using that nov [OF that(1)] fl c unfolding ff mf by (auto split: if_splits)
  show "do_right_fvec f" if "\<not> overlap w" "fcend f < fvend f"
    using that nov [OF that(1)] fl c unfolding ff mf by (auto split: if_splits)
  show "\<not> do_left_fvec f \<and> \<not> do_right_fvec f \<and> \<not> do_right_pvec f" if "overlap w"
    unfolding ff using that by simp
  show "fvbgn f = ovbgn f + ?V" if "ovbgn f < fvbgn f"
    using that b(3,4) unfolding ff mf by (cases "ebgn v < fvbgn v") auto
  show "ovend f = fvend f + ?V" if "fvend f < ovend f"
    using that b(5,6) unfolding ff mf by (cases "fvend v < eend v") auto
qed

lemma fv_in_cases:
  fixes f :: "'a::len word dim_vars"
  assumes ok: "dim_ok ctx sb j" and f: "f = dim_final ctx sb j"
  shows "(\<exists>s. fv_in s f x) \<longleftrightarrow> fvbgn f \<le> x \<and> x < fvend f"
    and "fv_in s f x \<Longrightarrow> fv_in s' f x \<Longrightarrow> s = s'"
    and "fv_in side_mid f x \<Longrightarrow> dim_clusters ctx sb j"
proof -
  define w :: "'a word dim_vars" where "w = dim_masked ctx sb j"
  note o = dim_final_order [OF ok f w_def]
  note ff = dim_final_fields [OF f w_def]
  have ex: "(\<exists>s. fv_in s f x) \<longleftrightarrow>
      (fv_in side_left f x \<or> fv_in side_mid f x \<or> fv_in side_right f x)"
    by (metis side.exhaust)
  show "(\<exists>s. fv_in s f x) \<longleftrightarrow> fvbgn f \<le> x \<and> x < fvend f"
  proof (cases "overlap w")
    case True
    with o(8,13) show ?thesis unfolding ex by (auto simp: fv_in_def)
  next
    case False
    note ord = o(7) [OF False] and lf = o(11) [OF False] and rf = o(12) [OF False]
    show ?thesis
    proof
      assume "\<exists>s. fv_in s f x"
      then have "fv_in side_left f x \<or> fv_in side_mid f x \<or> fv_in side_right f x"
        by (simp only: ex)
      then show "fvbgn f \<le> x \<and> x < fvend f"
        using ord by (auto simp: fv_in_def)
    next
      assume a: "fvbgn f \<le> x \<and> x < fvend f"
      show "\<exists>s. fv_in s f x"
      proof (cases "x < fcbgn f")
        case True
        with a lf have "fv_in side_left f x" by (simp add: fv_in_def)
        then show ?thesis ..
      next
        case nl: False
        show ?thesis
        proof (cases "x < fcend f")
          case True
          with nl have "fv_in side_mid f x" by (simp add: fv_in_def)
          then show ?thesis ..
        next
          case False
          with a rf have "fv_in side_right f x" by (simp add: fv_in_def)
          then show ?thesis ..
        qed
      qed
    qed
  qed
  show "s = s'" if "fv_in s f x" "fv_in s' f x"
  proof (cases "overlap w")
    case True
    with o(8,13) that show ?thesis
      by (cases s; cases s') (auto simp: fv_in_def)
  next
    case False
    with o(7) that show ?thesis
      by (cases s; cases s') (auto simp: fv_in_def)
  qed
  show "dim_clusters ctx sb j" if "fv_in side_mid f x"
  proof -
    from that have lt: "fcbgn f < fcend f" by (simp add: fv_in_def)
    then have "\<not> overlap w" using o(8) by auto
    moreover from lt have "\<not> fcend w \<le> fcbgn w" unfolding ff by (auto split: if_splits)
    ultimately show ?thesis by (simp add: dim_clusters_iff [OF w_def])
  qed
qed

lemma pv_in_cases:
  fixes f :: "'a::len word dim_vars"
  assumes ok: "dim_ok ctx sb j" and f: "f = dim_final ctx sb j"
  shows "(\<exists>s. pv_in s f x) \<longleftrightarrow> ebgn f \<le> x \<and> x < eend f"
    and "pv_in s f x \<Longrightarrow> pv_in s' f x \<Longrightarrow> s = s'"
proof -
  define w :: "'a word dim_vars" where "w = dim_masked ctx sb j"
  note o = dim_final_order [OF ok f w_def]
  note ff = dim_final_fields [OF f w_def]
  have ex: "(\<exists>s. pv_in s f x) \<longleftrightarrow>
      (pv_in side_left f x \<or> pv_in side_mid f x \<or> pv_in side_right f x)"
    by (metis side.exhaust)
  have lp: "do_left_pvec f \<longleftrightarrow> ebgn f < fvbgn f" using ff(9) o(9) by simp
  show "(\<exists>s. pv_in s f x) \<longleftrightarrow> ebgn f \<le> x \<and> x < eend f"
  proof (cases "overlap w")
    case True
    from o(8) [OF True] o(13) [OF True] o(1,3) lp show ?thesis
      unfolding ex by (auto simp: pv_in_def)
  next
    case False
    have rp: "do_right_pvec f \<longleftrightarrow> fvend f < eend f" using ff(10) o(10) False by simp
    from o(6) [OF False] o(1,3,4,5) lp rp show ?thesis
      unfolding ex by (auto simp: pv_in_def)
  qed
  show "s = s'" if "pv_in s f x" "pv_in s' f x"
  proof (cases "overlap w")
    case True
    from o(8) [OF True] o(13) [OF True] that show ?thesis
      by (cases s; cases s') (auto simp: pv_in_def)
  next
    case False
    from o(6) [OF False] that show ?thesis
      by (cases s; cases s') (auto simp: pv_in_def)
  qed
qed


subsection \<open>Normalized ranges\<close>

lemma idiv_flr_bounds:
  assumes V: "0 < V" and b: "V dvd b"
  shows "idiv_flr b V \<le> idiv_flr x V \<longleftrightarrow> b \<le> x"
    and "idiv_flr x V < idiv_flr b V \<longleftrightarrow> x < b"
proof -
  from b obtain m where m: "b = V * m" by (auto simp: dvd_def)
  have bm: "b div V = m" using V m by simp
  have x: "x = V * (x div V) + x mod V" by simp
  have r: "0 \<le> x mod V" "x mod V < V" using V by simp_all
  have le: "m \<le> x div V \<longleftrightarrow> V * m \<le> x"
  proof
    assume "m \<le> x div V"
    then have "V * m \<le> V * (x div V)" using V by (simp add: mult_left_mono)
    also have "\<dots> \<le> x" using x r(1) by linarith
    finally show "V * m \<le> x" .
  next
    assume "V * m \<le> x"
    then have "(V * m) div V \<le> x div V" using V by (intro zdiv_mono1) simp_all
    then show "m \<le> x div V" using V by simp
  qed
  show "idiv_flr b V \<le> idiv_flr x V \<longleftrightarrow> b \<le> x"
    using le V by (simp add: idiv_flr_def m)
  then show "idiv_flr x V < idiv_flr b V \<longleftrightarrow> x < b" by linarith
qed

text \<open>A normalized range whose bounds come from element bounds \<open>bs\<close> and \<open>es\<close> that
  are multiples of the fold lengths covers the points between those bounds.\<close>

lemma in_norm_range_iff:
  assumes d: "dims_ok d"
    and b: "\<forall>j < nddims d. fold_pts d ! j dvd bs j
               \<and> begin_v s ! j = idiv_flr (bs j) (fold_pts d ! j)"
    and e: "\<forall>j < nddims d. fold_pts d ! j dvd es j
               \<and> end_v s ! j = idiv_flr (es j) (fold_pts d ! j)"
  shows "in_norm_range d s p \<longleftrightarrow> (\<forall>j < nddims d. bs j \<le> p ! j \<and> p ! j < es j)"
proof -
  have "(begin_v s ! j \<le> idiv_flr (p ! j) (fold_pts d ! j)
          \<and> idiv_flr (p ! j) (fold_pts d ! j) < end_v s ! j)
        \<longleftrightarrow> (bs j \<le> p ! j \<and> p ! j < es j)" if j: "j < nddims d" for j
  proof -
    note D = dims_okD [OF d j]
    from b e j show ?thesis
      by (simp add: idiv_flr_bounds [OF D(1)])
  qed
  then show ?thesis by (simp add: in_norm_range_def)
qed

subsection \<open>Lanes\<close>

lemma lane_of_unlayout:
  assumes d: "dims_ok d"
  shows "\<exists>idx < nat (prod_list (fold_pts d)).
           unlayout (first_inner d) (fold_pts d) idx = lane_of d p"
proof (rule unlayout_surj)
  show "length (lane_of d p) = length (fold_pts d)"
    by (simp add: lane_of_def nddims_def)
  show "\<forall>j < length (fold_pts d). 0 \<le> lane_of d p ! j \<and> lane_of d p ! j < fold_pts d ! j"
    using d by (simp add: lane_of_def nddims_def imod_flr_def dims_ok_def)
qed

lemma lane_enabled_all:
  assumes d: "dims_ok d" and N: "nat (prod_list (fold_pts d)) < LENGTH('a::len)"
  shows "lane_enabled d (- 1 :: 'a word) p"
proof -
  from lane_of_unlayout [OF d, of p] obtain idx
    where i: "idx < nat (prod_list (fold_pts d))"
      "unlayout (first_inner d) (fold_pts d) idx = lane_of d p" by blast
  with N have "bit (- 1 :: 'a word) idx" by simp
  with i show ?thesis unfolding lane_enabled_def by blast
qed

text \<open>A mask whose bits are decided lane by lane, by the coordinates of the lane.\<close>

lemma lane_enabled_pred:
  fixes m :: "'a::len word"
  assumes d: "dims_ok d"
    and m: "\<And>idx. idx < nat (prod_list (fold_pts d)) \<Longrightarrow>
              unlayout (first_inner d) (fold_pts d) idx = lane_of d p \<Longrightarrow>
              (bit m idx \<longleftrightarrow> Q)"
  shows "lane_enabled d m p \<longleftrightarrow> Q"
proof
  assume "lane_enabled d m p"
  then obtain idx where "idx < nat (prod_list (fold_pts d))" "bit m idx"
    "unlayout (first_inner d) (fold_pts d) idx = lane_of d p"
    unfolding lane_enabled_def by blast
  with m show Q by blast
next
  assume Q
  from lane_of_unlayout [OF d, of p] obtain idx
    where i: "idx < nat (prod_list (fold_pts d))"
      "unlayout (first_inner d) (fold_pts d) idx = lane_of d p" by blast
  with m \<open>Q\<close> have "bit m idx" by blast
  with i show "lane_enabled d m p" unfolding lane_enabled_def by blast
qed

text \<open>The bits of the masks of a dim, at the lane of a point of the peel or of the
  remainder.\<close>

lemma mask_lane:
  fixes f :: "'a::len word dim_vars"
  assumes ok: "dim_ok ctx sb j" and f: "f = dim_final ctx sb j"
    and N: "nat (prod_list (fold_pts (dims ctx))) < LENGTH('a)"
    and idx: "idx < nat (prod_list (fold_pts (dims ctx)))"
    and l: "unlayout (first_inner (dims ctx)) (fold_pts (dims ctx)) idx ! j
              = imod_flr x (fold_pts (dims ctx) ! j)"
  shows "do_left_pvec f \<Longrightarrow> ovbgn f \<le> x \<Longrightarrow> x < fvbgn f \<Longrightarrow>
           (bit (pmask f) idx \<longleftrightarrow> ebgn f \<le> x \<and> x < eend f)"
    and "do_right_pvec f \<Longrightarrow> fvend f \<le> x \<Longrightarrow> x < ovend f \<Longrightarrow>
           (bit (rmask f) idx \<longleftrightarrow> x < eend f)"
proof -
  from ok have d: "dims_ok (dims ctx)" and j: "j < nddims (dims ctx)"
    and R: "idx_room ctx sb j"
    by (simp_all add: dim_ok_def)
  define w :: "'a word dim_vars" where "w = dim_masked ctx sb j"
  define v :: "'a word dim_vars" where "v = dim_ranges ctx sb j"
  let ?V = "fold_pts (dims ctx) ! j"
  note D = dims_okD [OF d j]
  note o = dim_final_order [OF ok f w_def]
  note ff = dim_final_fields [OF f w_def]
  note mf = dim_masked_fields [OF w_def v_def]
  note al = dim_final_aligned [OF d j f R]
  have "0 \<le> imod_flr x ?V" "imod_flr x ?V < ?V" using D(1) by (simp_all add: imod_flr_def)
  note ws = mask_sums_fit [OF D(1) refl v_def R this]
  have md: "imod_flr x ?V = x - b" if "?V dvd b" "b \<le> x" "x < b + ?V" for b
  proof -
    from that(1) have "x mod ?V = (x - b) mod ?V" by (simp add: mod_diff_right_eq [symmetric] mod_eq_0_iff_dvd [THEN iffD2])
    also have "\<dots> = x - b" using that(2,3) by simp
    finally show ?thesis by (simp add: imod_flr_def)
  qed
  show "bit (pmask f) idx \<longleftrightarrow> ebgn f \<le> x \<and> x < eend f"
    if lp: "do_left_pvec f" and x: "ovbgn f \<le> x" "x < fvbgn f"
  proof -
    from lp have lpw: "do_left_pvec w" using ff(9) by simp
    then have pv: "do_left_pvec v \<or> do_right_pvec v" using mf by simp
    from x have "ovbgn f < fvbgn f" by simp
    from o(14) [OF this] have fv: "fvbgn f = ovbgn f + ?V" .
    have xm: "imod_flr x ?V = x - ovbgn f" using md [OF al(5)] x fv by simp
    have pm: "bit (fst (build_masks (dims ctx) j v)) idx \<longleftrightarrow> ebgn f \<le> x"
    proof -
      have "bit (fst (build_masks (dims ctx) j v)) idx
          \<longleftrightarrow> ebgn v \<le> idx_wrap (ovbgn v + imod_flr x ?V)"
        using build_masks_bits(1) [OF N pv, of j idx] idx l by simp
      also have "\<dots> \<longleftrightarrow> ebgn v \<le> ovbgn v + imod_flr x ?V" by (simp only: ws(1))
      also have "\<dots> \<longleftrightarrow> ebgn f \<le> x" using xm unfolding ff mf by simp
      finally show ?thesis .
    qed
    have rm: "bit (snd (build_masks (dims ctx) j v)) idx \<longleftrightarrow> fvend f + (x - ovbgn f) < eend f"
    proof -
      have "bit (snd (build_masks (dims ctx) j v)) idx
          \<longleftrightarrow> idx_wrap (fvend v + imod_flr x ?V) < eend v"
        using build_masks_bits(2) [OF N pv, of j idx] idx l by simp
      also have "\<dots> \<longleftrightarrow> fvend v + imod_flr x ?V < eend v" by (simp only: ws(2))
      also have "\<dots> \<longleftrightarrow> fvend f + (x - ovbgn f) < eend f" using xm unfolding ff mf by simp
      finally show ?thesis .
    qed
    show ?thesis
    proof (cases "overlap w")
      case True
      from o(8) [OF True] have "ovbgn f = fvend f" by simp
      with True pm rm show ?thesis
        unfolding ff(13) mf(13,14) by (simp add: bit_and_iff)
    next
      case False
      from o(6) [OF False] o(5) x have "x < eend f" by linarith
      with False pm show ?thesis
        unfolding ff(13) mf(13,14) by simp
    qed
  qed
  show "bit (rmask f) idx \<longleftrightarrow> x < eend f"
    if rp: "do_right_pvec f" and x: "fvend f \<le> x" "x < ovend f"
  proof -
    from rp have no: "\<not> overlap w" and rpw: "do_right_pvec w" using ff(10) by simp_all
    then have pv: "do_left_pvec v \<or> do_right_pvec v" using mf by simp
    from x have "fvend f < ovend f" by simp
    from o(15) [OF this] have ov: "ovend f = fvend f + ?V" .
    have xm: "imod_flr x ?V = x - fvend f" using md [OF al(4)] x ov by simp
    have rm: "bit (snd (build_masks (dims ctx) j v)) idx \<longleftrightarrow> fvend f + (x - fvend f) < eend f"
    proof -
      have "bit (snd (build_masks (dims ctx) j v)) idx
          \<longleftrightarrow> idx_wrap (fvend v + imod_flr x ?V) < eend v"
        using build_masks_bits(2) [OF N pv, of j idx] idx l by simp
      also have "\<dots> \<longleftrightarrow> fvend v + imod_flr x ?V < eend v" by (simp only: ws(2))
      also have "\<dots> \<longleftrightarrow> fvend f + (x - fvend f) < eend f" using xm unfolding ff mf by simp
      finally show ?thesis .
    qed
    with no show ?thesis unfolding ff(14) mf(13,14) by simp
  qed
qed



subsection \<open>The points that the calls write\<close>

lemma normalized_ranges:
  assumes nz: "normalize_indices_scan d s = Inr ns"
  shows "length (begin_v ns) = nddims d" "length (end_v ns) = nddims d"
    "j < nddims d \<Longrightarrow> begin_v ns ! j = idiv_flr (begin_v s ! j) (fold_pts d ! j)"
    "j < nddims d \<Longrightarrow> end_v ns ! j = idiv_flr (end_v s ! j) (fold_pts d ! j)"
proof -
  from nz have "\<exists>r. normalize_indices_scan d s = Inr r" by blast
  then have a: "aligned d (begin_v s)" "aligned d (end_v s)" "aligned d (tile_size s)"
    "aligned d (align s)" "aligned d (stride s)"
    unfolding normalize_indices_scan_iff by simp_all
  from normalize_indices_scan_aligned [OF a] nz
  have ns: "begin_v ns = norm_of d (begin_v s)" "end_v ns = norm_of d (end_v s)" by auto
  show "length (begin_v ns) = nddims d" "length (end_v ns) = nddims d"
    by (simp_all add: ns norm_of_def)
  show "j < nddims d \<Longrightarrow> begin_v ns ! j = idiv_flr (begin_v s ! j) (fold_pts d ! j)"
    by (simp add: ns norm_of_def)
  show "j < nddims d \<Longrightarrow> end_v ns ! j = idiv_flr (end_v s ! j) (fold_pts d ! j)"
    by (simp add: ns norm_of_def)
qed

lemma cluster_writes:
  fixes st :: "'a::len word nano_vars"
  assumes ok: "nano_ok ctx micro" and sb: "sb = nano_init (dims ctx) settings sfi micro"
    and st: "st = loop_fold ctx sb (nddims (dims ctx)) (nano_vars_init (dims ctx) sb)"
    and nfc: "normalize_indices_scan (dims ctx) (sb_fcidxs st) = Inr nfc"
  shows "in_norm_range (dims ctx) nfc p \<longleftrightarrow>
     (\<forall>j < nddims (dims ctx). fv_in side_mid (dim_final ctx sb j :: 'a word dim_vars) (p ! j))"
proof -
  from ok have d: "dims_ok (dims ctx)" by (simp add: nano_ok_def)
  have "in_norm_range (dims ctx) nfc p \<longleftrightarrow>
      (\<forall>j < nddims (dims ctx). fcbgn (dim_final ctx sb j :: 'a word dim_vars) \<le> p ! j
          \<and> p ! j < fcend (dim_final ctx sb j :: 'a word dim_vars))"
  proof (rule in_norm_range_iff [OF d]; intro allI impI conjI)
    fix j assume j: "j < nddims (dims ctx)"
    note al = dim_final_aligned [OF d j refl nano_ok_room [OF ok j, of settings sfi, folded sb],
        where 'a = 'a]
    note fr = final_ranges [OF ok sb st j]
    note nr = normalized_ranges [OF nfc]
    show "fold_pts (dims ctx) ! j dvd fcbgn (dim_final ctx sb j :: 'a word dim_vars)"
      by (rule al)
    show "fold_pts (dims ctx) ! j dvd fcend (dim_final ctx sb j :: 'a word dim_vars)"
      by (rule al)
    show "begin_v nfc ! j
        = idiv_flr (fcbgn (dim_final ctx sb j :: 'a word dim_vars)) (fold_pts (dims ctx) ! j)"
      using nr(3) [OF j] fr(3) by simp
    show "end_v nfc ! j
        = idiv_flr (fcend (dim_final ctx sb j :: 'a word dim_vars)) (fold_pts (dims ctx) ! j)"
      using nr(4) [OF j] fr(4) by simp
  qed
  then show ?thesis by (simp add: fv_in_def)
qed

lemma fv_part_writes:
  fixes st :: "'a::len word nano_vars"
  assumes ok: "nano_ok ctx micro" and sb: "sb = nano_init (dims ctx) settings sfi micro"
    and st: "st = loop_fold ctx sb (nddims (dims ctx)) (nano_vars_init (dims ctx) sb)"
    and nd: "nddims (dims ctx) \<le> LENGTH('a)"
    and nfc: "normalize_indices_scan (dims ctx) (sb_fcidxs st) = Inr nfc"
    and nfv: "normalize_indices_scan (dims ctx) (sb_fvidxs st) = Inr nfv"
    and pt: "pt = part_vars_of (dims ctx) st nfc nfv nov cdims lr"
  shows "fv_needed pt \<and> in_norm_range (dims ctx) (fv_part pt) p \<longleftrightarrow>
     (\<forall>j < nddims (dims ctx).
        fv_in (side_of cdims lr j) (dim_final ctx sb j :: 'a word dim_vars) (p ! j))"
proof -
  from ok have d: "dims_ok (dims ctx)" by (simp add: nano_ok_def)
  define f :: "nat \<Rightarrow> 'a word dim_vars" where "f j = dim_final ctx sb j" for j
  define T where "T = side_of cdims lr"
  define bs where "bs j = (case T j of side_left \<Rightarrow> fvbgn (f j)
      | side_mid \<Rightarrow> fcbgn (f j) | side_right \<Rightarrow> fcend (f j))" for j
  define es where "es j = (case T j of side_left \<Rightarrow> fcbgn (f j)
      | side_mid \<Rightarrow> fcend (f j) | side_right \<Rightarrow> fvend (f j))" for j
  note nc = normalized_ranges [OF nfc]
  note nv = normalized_ranges [OF nfv]
  have pf: "pt = part_fold st nfc nfv nov cdims lr (nddims (dims ctx))"
    by (simp add: pt part_vars_of_fold)
  have rng: "in_norm_range (dims ctx) (fv_part pt) p \<longleftrightarrow>
      (\<forall>j < nddims (dims ctx). bs j \<le> p ! j \<and> p ! j < es j)"
  proof (rule in_norm_range_iff [OF d]; intro allI impI conjI)
    fix j assume j: "j < nddims (dims ctx)"
    note al = dim_final_aligned [OF d j f_def nano_ok_room [OF ok j, of settings sfi, folded sb]]
    note fr = final_ranges [OF ok sb st j, folded f_def]
    note pr = part_fold_fv_range [of j nfc st nfv nov cdims lr "nddims (dims ctx)",
        folded pf T_def]
    show "fold_pts (dims ctx) ! j dvd bs j" unfolding bs_def using al
      by (cases "T j") simp_all
    show "fold_pts (dims ctx) ! j dvd es j" unfolding es_def using al
      by (cases "T j") simp_all
    show "begin_v (fv_part pt) ! j = idiv_flr (bs j) (fold_pts (dims ctx) ! j)"
      unfolding bs_def using pr(1) j nc nv fr by (cases "T j") simp_all
    show "end_v (fv_part pt) ! j = idiv_flr (es j) (fold_pts (dims ctx) ! j)"
      unfolding es_def using pr(2) j nc nv fr by (cases "T j") simp_all
  qed
  have need: "fv_needed pt \<longleftrightarrow>
      (\<forall>j < nddims (dims ctx). (T j = side_left \<longrightarrow> do_left_fvec (f j))
          \<and> (T j = side_right \<longrightarrow> do_right_fvec (f j)))"
  proof -
    have "is_bit_set (do_left_fvecs st) j \<longleftrightarrow> do_left_fvec (f j)"
      "is_bit_set (do_right_fvecs st) j \<longleftrightarrow> do_right_fvec (f j)"
      if "j < nddims (dims ctx)" for j
      using final_flag_bits(1,2) [OF st that nd] by (simp_all add: is_bit_set_def f_def)
    then show ?thesis unfolding pf part_fold_needed T_def by simp
  qed
  have "(fv_needed pt \<and> in_norm_range (dims ctx) (fv_part pt) p) \<longleftrightarrow>
      (\<forall>j < nddims (dims ctx). fv_in (T j) (f j) (p ! j))"
    unfolding rng need
  proof (intro iffI allI impI)
    fix j assume a: "(\<forall>j < nddims (dims ctx). (T j = side_left \<longrightarrow> do_left_fvec (f j))
          \<and> (T j = side_right \<longrightarrow> do_right_fvec (f j)))
        \<and> (\<forall>j < nddims (dims ctx). bs j \<le> p ! j \<and> p ! j < es j)"
      and j: "j < nddims (dims ctx)"
    then show "fv_in (T j) (f j) (p ! j)"
      by (cases "T j") (auto simp: fv_in_def bs_def es_def)
  next
    assume a: "\<forall>j < nddims (dims ctx). fv_in (T j) (f j) (p ! j)"
    show "(\<forall>j < nddims (dims ctx). (T j = side_left \<longrightarrow> do_left_fvec (f j))
          \<and> (T j = side_right \<longrightarrow> do_right_fvec (f j)))
        \<and> (\<forall>j < nddims (dims ctx). bs j \<le> p ! j \<and> p ! j < es j)"
    proof (intro conjI allI impI)
      fix j assume j: "j < nddims (dims ctx)"
      with a have fi: "fv_in (T j) (f j) (p ! j)" by blast
      show "do_left_fvec (f j)" if "T j = side_left" using fi that by (simp add: fv_in_def)
      show "do_right_fvec (f j)" if "T j = side_right" using fi that by (simp add: fv_in_def)
      show "bs j \<le> p ! j" using fi by (cases "T j") (simp_all add: fv_in_def bs_def)
      show "p ! j < es j" using fi by (cases "T j") (simp_all add: fv_in_def es_def)
    qed
  qed
  then show ?thesis by (simp add: f_def T_def)
qed


lemma pv_part_writes:
  fixes st :: "'a::len word nano_vars"
  assumes ok: "nano_ok ctx micro" and sb: "sb = nano_init (dims ctx) settings sfi micro"
    and st: "st = loop_fold ctx sb (nddims (dims ctx)) (nano_vars_init (dims ctx) sb)"
    and N: "nat (prod_list (fold_pts (dims ctx))) < LENGTH('a)"
    and nd: "nddims (dims ctx) \<le> LENGTH('a)"
    and nfv: "normalize_indices_scan (dims ctx) (sb_fvidxs st) = Inr nfv"
    and nov: "normalize_indices_scan (dims ctx) (sb_ovidxs st) = Inr nov"
    and pt: "pt = part_vars_of (dims ctx) st nfc nfv nov cdims lr"
  shows "pv_needed pt \<and> in_norm_range (dims ctx) (pv_part pt) p
       \<and> lane_enabled (dims ctx) (pv_mask pt) p \<longleftrightarrow>
     (\<forall>j < nddims (dims ctx).
        pv_in (side_of cdims lr j) (dim_final ctx sb j :: 'a word dim_vars) (p ! j))"
proof -
  from ok have d: "dims_ok (dims ctx)" by (simp add: nano_ok_def)
  define f :: "nat \<Rightarrow> 'a word dim_vars" where "f j = dim_final ctx sb j" for j
  define T where "T = side_of cdims lr"
  define bs where "bs j = (case T j of side_left \<Rightarrow> ovbgn (f j)
      | side_mid \<Rightarrow> fvbgn (f j) | side_right \<Rightarrow> fvend (f j))" for j
  define es where "es j = (case T j of side_left \<Rightarrow> fvbgn (f j)
      | side_mid \<Rightarrow> fvend (f j) | side_right \<Rightarrow> ovend (f j))" for j
  define Q where "Q \<longleftrightarrow> (\<forall>j < nddims (dims ctx).
      (T j = side_left \<longrightarrow> ebgn (f j) \<le> p ! j \<and> p ! j < eend (f j))
      \<and> (T j = side_right \<longrightarrow> p ! j < eend (f j)))"
  note nv = normalized_ranges [OF nfv]
  note no = normalized_ranges [OF nov]
  have pf: "pt = part_fold st nfc nfv nov cdims lr (nddims (dims ctx))"
    by (simp add: pt part_vars_of_fold)
  have rng: "in_norm_range (dims ctx) (pv_part pt) p \<longleftrightarrow>
      (\<forall>j < nddims (dims ctx). bs j \<le> p ! j \<and> p ! j < es j)"
  proof (rule in_norm_range_iff [OF d]; intro allI impI conjI)
    fix j assume j: "j < nddims (dims ctx)"
    note al = dim_final_aligned [OF d j f_def nano_ok_room [OF ok j, of settings sfi, folded sb]]
    note fr = final_ranges [OF ok sb st j, folded f_def]
    note pr = part_fold_pv_range [of j nfv st nfc nov cdims lr "nddims (dims ctx)",
        folded pf T_def]
    show "fold_pts (dims ctx) ! j dvd bs j" unfolding bs_def using al
      by (cases "T j") simp_all
    show "fold_pts (dims ctx) ! j dvd es j" unfolding es_def using al
      by (cases "T j") simp_all
    show "begin_v (pv_part pt) ! j = idiv_flr (bs j) (fold_pts (dims ctx) ! j)"
      unfolding bs_def using pr(1) j no nv fr by (cases "T j") simp_all
    show "end_v (pv_part pt) ! j = idiv_flr (es j) (fold_pts (dims ctx) ! j)"
      unfolding es_def using pr(2) j no nv fr by (cases "T j") simp_all
  qed
  have need: "pv_needed pt \<longleftrightarrow>
      (\<forall>j < nddims (dims ctx). (T j = side_left \<longrightarrow> do_left_pvec (f j))
          \<and> (T j = side_right \<longrightarrow> do_right_pvec (f j)))"
  proof -
    have "is_bit_set (do_left_pvecs st) j \<longleftrightarrow> do_left_pvec (f j)"
      "is_bit_set (do_right_pvecs st) j \<longleftrightarrow> do_right_pvec (f j)"
      if "j < nddims (dims ctx)" for j
      using final_flag_bits(3,4) [OF st that nd] by (simp_all add: is_bit_set_def f_def)
    then show ?thesis unfolding pf part_fold_needed T_def by simp
  qed
  have lane: "lane_enabled (dims ctx) (pv_mask pt) p \<longleftrightarrow> Q"
    if ne: "pv_needed pt" and r: "in_norm_range (dims ctx) (pv_part pt) p"
  proof (rule lane_enabled_pred [OF d])
    fix idx
    assume idx: "idx < nat (prod_list (fold_pts (dims ctx)))"
      and l: "unlayout (first_inner (dims ctx)) (fold_pts (dims ctx)) idx = lane_of (dims ctx) p"
    have pm: "bit (peel_masks st ! j) idx \<longleftrightarrow> ebgn (f j) \<le> p ! j \<and> p ! j < eend (f j)"
      if j: "j < nddims (dims ctx)" and t: "T j = side_left" for j
    proof -
      have lj: "unlayout (first_inner (dims ctx)) (fold_pts (dims ctx)) idx ! j
          = imod_flr (p ! j) (fold_pts (dims ctx) ! j)"
        using j by (simp add: l lane_of_def)
      from ne need j t have fl: "do_left_pvec (f j)" by blast
      from r rng j have "bs j \<le> p ! j" "p ! j < es j" by blast+
      with t have x: "ovbgn (f j) \<le> p ! j" "p ! j < fvbgn (f j)"
        by (simp_all add: bs_def es_def)
      from mask_lane(1) [OF nano_ok_dim_ok [OF ok j] f_def [of j, unfolded sb] N idx lj,
          folded sb, OF fl x]
      show ?thesis using final_ranges(9) [OF ok sb st j] by (simp add: f_def)
    qed
    have rm: "bit (rem_masks st ! j) idx \<longleftrightarrow> p ! j < eend (f j)"
      if j: "j < nddims (dims ctx)" and t: "T j = side_right" for j
    proof -
      have lj: "unlayout (first_inner (dims ctx)) (fold_pts (dims ctx)) idx ! j
          = imod_flr (p ! j) (fold_pts (dims ctx) ! j)"
        using j by (simp add: l lane_of_def)
      from ne need j t have fl: "do_right_pvec (f j)" by blast
      from r rng j have "bs j \<le> p ! j" "p ! j < es j" by blast+
      with t have x: "fvend (f j) \<le> p ! j" "p ! j < ovend (f j)"
        by (simp_all add: bs_def es_def)
      from mask_lane(2) [OF nano_ok_dim_ok [OF ok j] f_def [of j, unfolded sb] N idx lj,
          folded sb, OF fl x]
      show ?thesis using final_ranges(10) [OF ok sb st j] by (simp add: f_def)
    qed
    from idx N have "idx < LENGTH('a)" by simp
    then show "bit (pv_mask pt) idx \<longleftrightarrow> Q"
      unfolding pf part_fold_mask Q_def T_def [symmetric] using pm rm by auto
  qed
  have "(pv_needed pt \<and> in_norm_range (dims ctx) (pv_part pt) p
          \<and> lane_enabled (dims ctx) (pv_mask pt) p) \<longleftrightarrow>
      (pv_needed pt \<and> in_norm_range (dims ctx) (pv_part pt) p \<and> Q)"
    using lane by blast
  also have "\<dots> \<longleftrightarrow> (\<forall>j < nddims (dims ctx). pv_in (T j) (f j) (p ! j))"
    unfolding rng need Q_def
  proof (intro iffI allI impI)
    fix j assume a: "(\<forall>j < nddims (dims ctx). (T j = side_left \<longrightarrow> do_left_pvec (f j))
          \<and> (T j = side_right \<longrightarrow> do_right_pvec (f j)))
        \<and> (\<forall>j < nddims (dims ctx). bs j \<le> p ! j \<and> p ! j < es j)
        \<and> (\<forall>j < nddims (dims ctx).
             (T j = side_left \<longrightarrow> ebgn (f j) \<le> p ! j \<and> p ! j < eend (f j))
             \<and> (T j = side_right \<longrightarrow> p ! j < eend (f j)))"
      and j: "j < nddims (dims ctx)"
    then show "pv_in (T j) (f j) (p ! j)"
      by (cases "T j") (auto simp: pv_in_def bs_def es_def)
  next
    assume a: "\<forall>j < nddims (dims ctx). pv_in (T j) (f j) (p ! j)"
    show "(\<forall>j < nddims (dims ctx). (T j = side_left \<longrightarrow> do_left_pvec (f j))
          \<and> (T j = side_right \<longrightarrow> do_right_pvec (f j)))
        \<and> (\<forall>j < nddims (dims ctx). bs j \<le> p ! j \<and> p ! j < es j)
        \<and> (\<forall>j < nddims (dims ctx).
             (T j = side_left \<longrightarrow> ebgn (f j) \<le> p ! j \<and> p ! j < eend (f j))
             \<and> (T j = side_right \<longrightarrow> p ! j < eend (f j)))"
    proof (intro conjI allI impI)
      fix j assume j: "j < nddims (dims ctx)"
      with a have fi: "pv_in (T j) (f j) (p ! j)" by blast
      show "do_left_pvec (f j)" if "T j = side_left" using fi that by (simp add: pv_in_def)
      show "do_right_pvec (f j)" if "T j = side_right" using fi that by (simp add: pv_in_def)
      show "bs j \<le> p ! j" using fi by (cases "T j") (simp_all add: pv_in_def bs_def)
      show "p ! j < es j" using fi by (cases "T j") (simp_all add: pv_in_def es_def)
      show "ebgn (f j) \<le> p ! j" if "T j = side_left" using fi that by (simp add: pv_in_def)
      show "p ! j < eend (f j)" if "T j = side_left" using fi that by (simp add: pv_in_def)
      show "p ! j < eend (f j)" if "T j = side_right" using fi that by (simp add: pv_in_def)
    qed
  qed
  finally show ?thesis by (simp add: f_def T_def)
qed

text \<open>The number of calls of a part that write a point.\<close>

lemma part_calls_writes:
  fixes st :: "'a::len word nano_vars"
  assumes ok: "nano_ok ctx micro" and sb: "sb = nano_init (dims ctx) settings sfi micro"
    and st: "st = loop_fold ctx sb (nddims (dims ctx)) (nano_vars_init (dims ctx) sb)"
    and N: "nat (prod_list (fold_pts (dims ctx))) < LENGTH('a)"
    and nd: "nddims (dims ctx) \<le> LENGTH('a)"
    and nfc: "normalize_indices_scan (dims ctx) (sb_fcidxs st) = Inr nfc"
    and nfv: "normalize_indices_scan (dims ctx) (sb_fvidxs st) = Inr nfv"
    and nov: "normalize_indices_scan (dims ctx) (sb_ovidxs st) = Inr nov"
  shows "num_writes (dims ctx)
       (part_calls ot it lim (part_vars_of (dims ctx) st nfc nfv nov cdims lr)) p =
     (if \<forall>j < nddims (dims ctx).
           fv_in (side_of cdims lr j) (dim_final ctx sb j :: 'a word dim_vars) (p ! j)
      then 1 else 0)
     + (if \<forall>j < nddims (dims ctx).
             pv_in (side_of cdims lr j) (dim_final ctx sb j :: 'a word dim_vars) (p ! j)
        then 1 else 0)"
proof -
  define pt where "pt = part_vars_of (dims ctx) st nfc nfv nov cdims lr"
  note fv = fv_part_writes [OF ok sb st nd nfc nfv pt_def, of p]
  note pv = pv_part_writes [OF ok sb st N nd nfv nov pt_def, of p]
  have la: "lane_enabled (dims ctx) (- 1 :: 'a word) p"
    using ok N by (intro lane_enabled_all) (simp_all add: nano_ok_def)
  have "num_writes (dims ctx) (part_calls ot it lim pt) p =
      (if fv_needed pt \<and> in_norm_range (dims ctx) (fv_part pt) p then 1 else 0)
      + (if pv_needed pt \<and> in_norm_range (dims ctx) (pv_part pt) p
            \<and> lane_enabled (dims ctx) (pv_mask pt) p then 1 else 0)"
    using la by (simp add: num_writes_def part_calls_def)
  then have "num_writes (dims ctx) (part_calls ot it lim pt) p =
      (if \<forall>j < nddims (dims ctx).
           fv_in (side_of cdims lr j) (dim_final ctx sb j :: 'a word dim_vars) (p ! j)
       then 1 else 0)
      + (if \<forall>j < nddims (dims ctx).
             pv_in (side_of cdims lr j) (dim_final ctx sb j :: 'a word dim_vars) (p ! j)
         then 1 else 0)"
    by (simp only: fv pv)
  then show ?thesis by (simp only: pt_def)
qed


subsection \<open>The enumeration of the boundary parts\<close>

lemma count_list_snoc:
  "count_list (map (\<lambda>c. c @ [x]) B) c =
     (if c \<noteq> [] \<and> last c = x then count_list B (butlast c) else 0)"
  by (induction B) (auto simp: snoc_eq_iff_butlast)

lemma strict_sorted_snoc_cases:
  fixes c :: "nat list"
  shows "sorted_wrt (<) c \<and> set c \<subseteq> {..<Suc n} \<and> length c = Suc k \<longleftrightarrow>
     (sorted_wrt (<) c \<and> set c \<subseteq> {..<n} \<and> length c = Suc k)
     \<or> (c \<noteq> [] \<and> last c = n \<and> sorted_wrt (<) (butlast c) \<and> set (butlast c) \<subseteq> {..<n}
          \<and> length (butlast c) = k)"
    and "\<not> ((sorted_wrt (<) c \<and> set c \<subseteq> {..<n} \<and> length c = Suc k)
          \<and> (c \<noteq> [] \<and> last c = n))"
proof -
  show "\<not> ((sorted_wrt (<) c \<and> set c \<subseteq> {..<n} \<and> length c = Suc k)
          \<and> (c \<noteq> [] \<and> last c = n))"
  proof
    assume a: "(sorted_wrt (<) c \<and> set c \<subseteq> {..<n} \<and> length c = Suc k)
          \<and> (c \<noteq> [] \<and> last c = n)"
    then have "c \<noteq> []" by simp
    then have "last c \<in> set c" by (rule last_in_set)
    with a have "last c < n" by blast
    with a show False by simp
  qed
  show "sorted_wrt (<) c \<and> set c \<subseteq> {..<Suc n} \<and> length c = Suc k \<longleftrightarrow>
     (sorted_wrt (<) c \<and> set c \<subseteq> {..<n} \<and> length c = Suc k)
     \<or> (c \<noteq> [] \<and> last c = n \<and> sorted_wrt (<) (butlast c) \<and> set (butlast c) \<subseteq> {..<n}
          \<and> length (butlast c) = k)"
  proof (cases c rule: rev_cases)
    case Nil
    then show ?thesis by simp
  next
    case (snoc b x)
    show ?thesis
    proof (cases "x = n")
      case True
      with snoc show ?thesis by (auto simp: sorted_wrt_append)
    next
      case False
      with snoc show ?thesis by (fastforce simp: sorted_wrt_append less_Suc_eq)
    qed
  qed
qed

lemma count_list_k_subsets:
  "count_list (k_subsets n k) c =
     (if sorted_wrt (<) c \<and> set c \<subseteq> {..<n} \<and> length c = k then 1 else 0)"
proof (induction n k arbitrary: c rule: k_subsets.induct)
  case (1 n)
  then show ?case by (cases c) auto
next
  case (2 k)
  then show ?case by auto
next
  case (3 n k)
  note s = strict_sorted_snoc_cases [of c n k]
  show ?case
    unfolding k_subsets.simps count_list_append count_list_snoc 3 s(1)
    using s(2) by auto
qed

lemma bit_foldr_set_bit:
  "bit (foldr set_bit c (0 :: 'a::len word)) j \<longleftrightarrow> j \<in> set c \<and> j < LENGTH('a)"
  by (induction c) (auto simp: bit_set_bit_iff)

lemma strict_sorted_rank:
  fixes c :: "nat list"
  assumes s: "sorted_wrt (<) c" and i: "i < length c"
  shows "length (filter (\<lambda>x. x \<in> set c) [0 ..< c ! i]) = i"
proof -
  have "filter (\<lambda>x. x \<in> set c) [0 ..< c ! i] = take i c"
  proof (rule sorted_distinct_set_unique)
    show "sorted (filter (\<lambda>x. x \<in> set c) [0 ..< c ! i])" by (simp add: sorted_wrt_filter)
    show "distinct (filter (\<lambda>x. x \<in> set c) [0 ..< c ! i])" by simp
    from s show "sorted (take i c)" "distinct (take i c)"
      by (simp_all add: strict_sorted_iff sorted_wrt_take)
    show "set (filter (\<lambda>x. x \<in> set c) [0 ..< c ! i]) = set (take i c)"
    proof (intro set_eqI iffI)
      fix x assume "x \<in> set (filter (\<lambda>x. x \<in> set c) [0 ..< c ! i])"
      then have x: "x \<in> set c" "x < c ! i" by simp_all
      then obtain j where j: "j < length c" "c ! j = x" by (auto simp: in_set_conv_nth)
      have "j < i"
      proof (rule ccontr)
        assume "\<not> j < i"
        then have "i = j \<or> i < j" by auto
        then have "c ! i \<le> c ! j"
          using sorted_wrt_nth_less [OF s, of i j] j(1) by auto
        with x j show False by simp
      qed
      with i j show "x \<in> set (take i c)" by (auto simp: in_set_conv_nth)
    next
      fix x assume "x \<in> set (take i c)"
      then obtain j where j: "j < i" "c ! j = x" using i by (auto simp: in_set_conv_nth)
      with sorted_wrt_nth_less [OF s, of j i] i show
        "x \<in> set (filter (\<lambda>x. x \<in> set c) [0 ..< c ! i])" by auto
    qed
  qed
  with i show ?thesis by simp
qed

lemma filter_upt_eq:
  "filter (\<lambda>x. x = x0) [0 ..< m] = (if x0 < m then [x0] else [])"
  by (induction m) auto

lemma filter_upt_unique:
  assumes "x0 < m" "Q x0" "\<And>x. x < m \<Longrightarrow> Q x \<Longrightarrow> x = x0"
  shows "length (filter Q [0 ..< m]) = 1"
proof -
  have "filter Q [0 ..< m] = filter (\<lambda>x. x = x0) [0 ..< m]"
  proof (rule filter_cong [OF refl])
    fix x assume "x \<in> set [0 ..< m]"
    then have "x < m" by simp
    with assms show "Q x = (x = x0)" by blast
  qed
  with assms(1) show ?thesis by (simp add: filter_upt_eq)
qed

lemma unat_push_bit_1:
  "k < LENGTH('a::len) \<Longrightarrow> unat (push_bit k 1 :: 'a word) = 2 ^ k"
  by (simp add: of_nat_inverse)

lemma lr_unique:
  assumes k: "k < LENGTH('a::len)"
  shows "length (filter (\<lambda>lr. \<forall>i < k. bit (of_nat lr :: 'a word) i \<longleftrightarrow> B i)
           [0 ..< unat (push_bit k 1 :: 'a word)]) = 1"
proof -
  define lr0 :: nat where "lr0 = horner_sum of_bool 2 (map B [0 ..< k])"
  have b0: "bit lr0 i \<longleftrightarrow> i < k \<and> B i" for i
    by (auto simp: lr0_def bit_horner_sum_bit_iff)
  have "take_bit k lr0 = lr0" by (rule bit_eqI) (auto simp: bit_take_bit_iff b0)
  then have l0: "lr0 < 2 ^ k" by (simp add: take_bit_nat_eq_self_iff)
  have bw: "bit (of_nat lr :: 'a word) i \<longleftrightarrow> bit lr i" if "i < k" for lr i
    using that k by (simp add: bit_of_nat_iff)
  show ?thesis unfolding unat_push_bit_1 [OF k]
  proof (rule filter_upt_unique [of lr0])
    show "lr0 < 2 ^ k" by (rule l0)
    show "\<forall>i < k. bit (of_nat lr0 :: 'a word) i \<longleftrightarrow> B i" by (simp add: bw b0)
    fix x :: nat assume x: "x < 2 ^ k" and bx: "\<forall>i < k. bit (of_nat x :: 'a word) i \<longleftrightarrow> B i"
    have "take_bit k x = take_bit k lr0"
      by (rule bit_eqI) (use bx bw b0 in \<open>auto simp: bit_take_bit_iff\<close>)
    with x l0 show "x = lr0" by (simp add: take_bit_nat_eq_self)
  qed
qed


lemma sides_of_eq:
  fixes w :: "'a::len word"
  assumes s: "sorted_wrt (<) c" and sub: "set c \<subseteq> {..<n}" and n: "n \<le> LENGTH('a)"
    and T: "length T = n"
  shows "sides_of n (foldr set_bit c 0) w = T \<longleftrightarrow>
     (\<forall>j < n. T ! j \<noteq> side_mid \<longleftrightarrow> j \<in> set c)
     \<and> (\<forall>i < length c. bit w i \<longleftrightarrow> T ! (c ! i) = side_right)"
proof -
  define rank where "rank j = length (filter (\<lambda>x. x \<in> set c) [0 ..< j])" for j
  have sd: "side_of (foldr set_bit c (0 :: 'a word)) w j =
      (if j \<notin> set c then side_mid else if \<not> bit w (rank j) then side_left else side_right)"
    if j: "j < n" for j
  proof -
    have "filter (is_bit_set (foldr set_bit c (0 :: 'a word))) [0 ..< j]
        = filter (\<lambda>x. x \<in> set c) [0 ..< j]"
      using j n by (intro filter_cong) (auto simp: is_bit_set_def bit_foldr_set_bit)
    with j n show ?thesis
      by (simp add: side_of_def is_bit_set_def bit_foldr_set_bit rank_def)
  qed
  have rk: "rank (c ! i) = i" if "i < length c" for i
    unfolding rank_def by (rule strict_sorted_rank [OF s that])
  have cn: "c ! i \<in> set c" "c ! i < n" if "i < length c" for i
    using that sub by (auto simp: subset_iff)
  have eq: "sides_of n (foldr set_bit c 0) w = T \<longleftrightarrow>
      (\<forall>j < n. T ! j = side_of (foldr set_bit c (0 :: 'a word)) w j)"
    using T by (auto simp: sides_of_def list_eq_iff_nth_eq)
  show ?thesis unfolding eq
  proof
    assume a: "\<forall>j < n. T ! j = side_of (foldr set_bit c (0 :: 'a word)) w j"
    show "(\<forall>j < n. T ! j \<noteq> side_mid \<longleftrightarrow> j \<in> set c)
        \<and> (\<forall>i < length c. bit w i \<longleftrightarrow> T ! (c ! i) = side_right)"
    proof (intro conjI allI impI)
      fix j assume j: "j < n"
      with a sd [OF j] show "T ! j \<noteq> side_mid \<longleftrightarrow> j \<in> set c" by simp
    next
      fix i assume i: "i < length c"
      from a cn [OF i] sd [OF cn(2) [OF i]] rk [OF i]
      show "bit w i \<longleftrightarrow> T ! (c ! i) = side_right" by simp
    qed
  next
    assume a: "(\<forall>j < n. T ! j \<noteq> side_mid \<longleftrightarrow> j \<in> set c)
        \<and> (\<forall>i < length c. bit w i \<longleftrightarrow> T ! (c ! i) = side_right)"
    show "\<forall>j < n. T ! j = side_of (foldr set_bit c (0 :: 'a word)) w j"
    proof (intro allI impI)
      fix j assume j: "j < n"
      show "T ! j = side_of (foldr set_bit c (0 :: 'a word)) w j"
      proof (cases "j \<in> set c")
        case False
        from a j have "T ! j \<noteq> side_mid \<longleftrightarrow> j \<in> set c" by blast
        with False sd [OF j] show ?thesis by simp
      next
        case True
        then obtain i where i: "i < length c" "c ! i = j" by (auto simp: in_set_conv_nth)
        from a j True have nm: "T ! j \<noteq> side_mid" by blast
        from a i have b: "bit w i \<longleftrightarrow> T ! j = side_right" by blast
        from rk [OF i(1)] i(2) have r: "rank j = i" by simp
        show ?thesis unfolding sd [OF j] r using True nm b by (cases "T ! j") simp_all
      qed
    qed
  qed
qed

lemma concat_map_concat_map:
  "concat (map f (concat (map g xs))) = concat (map (\<lambda>x. concat (map f (g x))) xs)"
  by (induction xs) simp_all

lemma length_filter_concat_map:
  "length (filter P (concat (map g xs))) = sum_list (map (\<lambda>x. length (filter P (g x))) xs)"
  by (induction xs) simp_all

lemma sum_list_map_nth:
  "sum_list (map (\<lambda>r. h (xs ! r)) [0 ..< length xs]) = sum_list (map h xs)"
proof -
  have "map (\<lambda>r. h (xs ! r)) [0 ..< length xs] = map h xs"
    by (rule nth_equalityI) simp_all
  then show ?thesis by simp
qed

lemma sum_list_indicator:
  "sum_list (map (\<lambda>c. if c = a then 1 else 0) xs) = count_list xs a"
  by (induction xs) auto

lemma sum_list_upt_indicator:
  "sum_list (map (\<lambda>k. if m = k then (1::nat) else 0) [1 ..< Suc n])
     = (if 1 \<le> m \<and> m \<le> n then 1 else 0)"
  by (induction n) auto

text \<open>Every assignment of sides to the dims that selects at least one dim is the
  assignment of exactly one boundary part.\<close>

lemma part_list_count:
  assumes n: "n < LENGTH('a::len)" and T: "length T = n"
  shows "length (filter (\<lambda>(c, l). sides_of n c l = T)
             (part_list n :: ('a word \<times> 'a word) list))
       = (if \<exists>j < n. T ! j \<noteq> side_mid then 1 else 0)"
proof -
  define cT where "cT = filter (\<lambda>j. T ! j \<noteq> side_mid) [0 ..< n]"
  have cs: "sorted_wrt (<) cT" "set cT \<subseteq> {..<n}"
    by (auto simp: cT_def strict_sorted_iff sorted_wrt_filter)
  have inner: "length (filter (\<lambda>lr. sides_of n (foldr set_bit c 0) (of_nat lr :: 'a word) = T)
        [0 ..< unat (push_bit k 1 :: 'a word)]) = (if c = cT then 1 else 0)"
    if c: "sorted_wrt (<) c" "set c \<subseteq> {..<n}" "length c = k" for c k
  proof -
    have kn: "k \<le> n"
    proof -
      from c(1) have "distinct c" by (simp add: strict_sorted_iff)
      then have "card (set c) = length c" by (rule distinct_card)
      moreover have "card (set c) \<le> card {..<n}" by (rule card_mono) (use c(2) in simp_all)
      ultimately show ?thesis using c(3) by simp
    qed
    with n have k: "k < LENGTH('a)" by simp
    have A: "(\<forall>j < n. T ! j \<noteq> side_mid \<longleftrightarrow> j \<in> set c) \<longleftrightarrow> c = cT"
    proof
      assume a: "\<forall>j < n. T ! j \<noteq> side_mid \<longleftrightarrow> j \<in> set c"
      show "c = cT"
      proof (rule sorted_distinct_set_unique)
        from c(1) cs(1) show "sorted c" "distinct c" "sorted cT" "distinct cT"
          by (simp_all add: strict_sorted_iff)
        show "set c = set cT" using a c(2) by (auto simp: cT_def)
      qed
    next
      assume "c = cT"
      then show "\<forall>j < n. T ! j \<noteq> side_mid \<longleftrightarrow> j \<in> set c" by (simp add: cT_def)
    qed
    have eq: "sides_of n (foldr set_bit c 0) w = T \<longleftrightarrow>
        c = cT \<and> (\<forall>i < k. bit w i \<longleftrightarrow> T ! (c ! i) = side_right)" for w :: "'a word"
      using sides_of_eq [OF c(1,2) _ T, of w] n A c(3) by simp
    show ?thesis
    proof (cases "c = cT")
      case True
      have "length (filter (\<lambda>lr. \<forall>i < k. bit (of_nat lr :: 'a word) i
                \<longleftrightarrow> T ! (c ! i) = side_right)
            [0 ..< unat (push_bit k 1 :: 'a word)]) = 1"
        by (rule lr_unique [OF k])
      with True show ?thesis unfolding eq by simp
    next
      case False
      then show ?thesis unfolding eq by simp
    qed
  qed
  have ks: "sorted_wrt (<) c \<and> set c \<subseteq> {..<n} \<and> length c = k"
    if "c \<in> set (k_subsets n k)" for c k
  proof -
    from that have "count_list (k_subsets n k) c \<noteq> 0" by (simp add: count_list_0_iff)
    then show ?thesis unfolding count_list_k_subsets by (simp split: if_splits)
  qed
  have middle: "sum_list (map (\<lambda>r. length (filter
          (\<lambda>lr. sides_of n (n_choose_k_set n k r) (of_nat lr :: 'a word) = T)
          [0 ..< unat (push_bit k 1 :: 'a word)])) [0 ..< n_choose_k n k])
      = (if length cT = k then 1 else 0)" for k
  proof -
    have "map (\<lambda>r. length (filter
          (\<lambda>lr. sides_of n (n_choose_k_set n k r) (of_nat lr :: 'a word) = T)
          [0 ..< unat (push_bit k 1 :: 'a word)])) [0 ..< n_choose_k n k]
        = map (\<lambda>r. if k_subsets n k ! r = cT then 1 else 0) [0 ..< length (k_subsets n k)]"
      unfolding n_choose_k_def
    proof (rule map_cong [OF refl])
      fix r assume "r \<in> set [0 ..< length (k_subsets n k)]"
      then have "k_subsets n k ! r \<in> set (k_subsets n k)" by simp
      from ks [OF this] show "length (filter
          (\<lambda>lr. sides_of n (n_choose_k_set n k r) (of_nat lr :: 'a word) = T)
          [0 ..< unat (push_bit k 1 :: 'a word)])
        = (if k_subsets n k ! r = cT then 1 else 0)"
        unfolding n_choose_k_set_def by (intro inner) simp_all
    qed
    then have "sum_list (map (\<lambda>r. length (filter
          (\<lambda>lr. sides_of n (n_choose_k_set n k r) (of_nat lr :: 'a word) = T)
          [0 ..< unat (push_bit k 1 :: 'a word)])) [0 ..< n_choose_k n k])
        = sum_list (map (\<lambda>r. (\<lambda>c. if c = cT then 1 else 0) (k_subsets n k ! r))
            [0 ..< length (k_subsets n k)])"
      by simp
    also have "\<dots> = count_list (k_subsets n k) cT"
      using sum_list_map_nth [of "\<lambda>c. if c = cT then (1::nat) else 0" "k_subsets n k"]
      by (simp add: sum_list_indicator)
    also have "\<dots> = (if length cT = k then 1 else 0)"
      unfolding count_list_k_subsets using cs by simp
    finally show ?thesis .
  qed
  have "length (filter (\<lambda>(c, l). sides_of n c l = T)
             (part_list n :: ('a word \<times> 'a word) list))
      = sum_list (map (\<lambda>k. sum_list (map (\<lambda>r. length (filter
          (\<lambda>lr. sides_of n (n_choose_k_set n k r) (of_nat lr :: 'a word) = T)
          [0 ..< unat (push_bit k 1 :: 'a word)])) [0 ..< n_choose_k n k])) [1 ..< Suc n])"
    unfolding part_list_def length_filter_concat_map length_filter_map
    by (simp add: comp_def)
  also have "\<dots> = sum_list (map (\<lambda>k. if length cT = k then 1 else 0) [1 ..< Suc n])"
    unfolding middle ..
  also have "\<dots> = (if 1 \<le> length cT \<and> length cT \<le> n then 1 else 0)"
    by (rule sum_list_upt_indicator)
  also have "1 \<le> length cT \<and> length cT \<le> n \<longleftrightarrow> (\<exists>j < n. T ! j \<noteq> side_mid)"
  proof -
    have "length cT \<le> n" unfolding cT_def using length_filter_le [of _ "[0 ..< n]"] by simp
    moreover have "1 \<le> length cT \<longleftrightarrow> cT \<noteq> []" by (cases cT) simp_all
    moreover have "cT \<noteq> [] \<longleftrightarrow> (\<exists>j < n. T ! j \<noteq> side_mid)"
      by (auto simp: cT_def filter_empty_conv)
    ultimately show ?thesis by simp
  qed
  finally show ?thesis .
qed

lemma boundary_calls_parts:
  "boundary_calls d ot it lim st nfc nfv nov =
     concat (map (\<lambda>(c, l). part_calls ot it lim (part_vars_of d st nfc nfv nov c l))
               (part_list (nddims d)))"
  unfolding boundary_calls_def part_list_def
  by (simp add: Let_def concat_map_concat_map comp_def)


subsection \<open>Counting the calls that write a point\<close>

lemma num_writes_append:
  "num_writes d (xs @ ys) p = num_writes d xs p + num_writes d ys p"
  by (simp add: num_writes_def)

lemma num_writes_concat_map:
  "num_writes d (concat (map g xs)) p = sum_list (map (\<lambda>x. num_writes d (g x) p) xs)"
  unfolding num_writes_def by (rule length_filter_concat_map)

lemma sum_list_if_filter:
  "sum_list (map (\<lambda>x. if Q x then 1 else 0) xs) = length (filter Q xs)"
  by (induction xs) simp_all

lemma sides_exist:
  "(\<exists>T. length T = n \<and> (\<forall>j < n. R j (T ! j))) \<longleftrightarrow> (\<forall>j < n. \<exists>s. R j s)"
proof
  assume "\<exists>T. length T = n \<and> (\<forall>j < n. R j (T ! j))"
  then show "\<forall>j < n. \<exists>s. R j s" by blast
next
  assume "\<forall>j < n. \<exists>s. R j s"
  then have "\<forall>j. \<exists>s. j < n \<longrightarrow> R j s" by blast
  then obtain s where s: "\<forall>j. j < n \<longrightarrow> R j (s j)" by (rule choice [THEN exE])
  then have "length (map s [0 ..< n]) = n \<and> (\<forall>j < n. R j (map s [0 ..< n] ! j))" by simp
  then show "\<exists>T. length T = n \<and> (\<forall>j < n. R j (T ! j))" by blast
qed

text \<open>If every dim has at most one side that fits a point, then the point fits the
  middle of all dims or exactly one boundary part, or some dim has no side that fits
  the point.\<close>

lemma count_sides:
  fixes R :: "nat \<Rightarrow> side \<Rightarrow> bool"
  assumes n: "n < LENGTH('a::len)"
    and uniq: "\<And>j s s'. j < n \<Longrightarrow> R j s \<Longrightarrow> R j s' \<Longrightarrow> s = s'"
  shows "(if \<forall>j < n. R j side_mid then 1 else 0)
       + sum_list (map (\<lambda>(c, l). if \<forall>j < n. R j (side_of c l j) then 1 else 0)
           (part_list n :: ('a word \<times> 'a word) list))
       = (if \<forall>j < n. \<exists>s. R j s then (1::nat) else 0)"
proof -
  define P where "P T \<longleftrightarrow> (\<forall>j < n. R j (T ! j))" for T
  have PU: "T = T'" if "length T = n" "length T' = n" "P T" "P T'" for T T'
  proof (rule nth_equalityI)
    show "length T = length T'" using that by simp
    fix j assume "j < length T"
    with that have "j < n" "R j (T ! j)" "R j (T' ! j)" by (simp_all add: P_def)
    then show "T ! j = T' ! j" by (rule uniq)
  qed
  have ps: "(\<forall>j < n. R j (side_of c l j)) \<longleftrightarrow> P (sides_of n c l)" for c l :: "'a word"
    by (simp add: P_def sides_of_def)
  have pm: "(\<forall>j < n. R j side_mid) \<longleftrightarrow> P (replicate n side_mid)"
    by (simp add: P_def)
  have ex: "(\<forall>j < n. \<exists>s. R j s) \<longleftrightarrow> (\<exists>T. length T = n \<and> P T)"
    unfolding P_def by (rule sides_exist [symmetric])
  have sm: "sum_list (map (\<lambda>(c, l). if P (sides_of n c l) then 1 else 0)
           (part_list n :: ('a word \<times> 'a word) list))
      = (if \<exists>T. length T = n \<and> P T \<and> (\<exists>j < n. T ! j \<noteq> side_mid) then (1::nat) else 0)"
  proof (cases "\<exists>T. length T = n \<and> P T")
    case True
    then obtain T0 where T0: "length T0 = n" "P T0" by blast
    have "P (sides_of n c l) \<longleftrightarrow> sides_of n c l = T0" for c l :: "'a word"
      using PU [of "sides_of n c l" T0] T0 by (auto simp: sides_of_def)
    then have "sum_list (map (\<lambda>(c, l). if P (sides_of n c l) then 1 else 0)
           (part_list n :: ('a word \<times> 'a word) list))
        = length (filter (\<lambda>(c, l). sides_of n c l = T0)
            (part_list n :: ('a word \<times> 'a word) list))"
      by (simp add: sum_list_if_filter [symmetric] case_prod_unfold)
    also have "\<dots> = (if \<exists>j < n. T0 ! j \<noteq> side_mid then 1 else 0)"
      by (rule part_list_count [OF n T0(1)])
    also have "(\<exists>j < n. T0 ! j \<noteq> side_mid)
        \<longleftrightarrow> (\<exists>T. length T = n \<and> P T \<and> (\<exists>j < n. T ! j \<noteq> side_mid))"
      using T0 PU by blast
    finally show ?thesis .
  next
    case False
    then have np: "\<not> P (sides_of n c l)" for c l :: "'a word"
      by (auto simp: sides_of_def)
    from False have "\<not> (\<exists>T. length T = n \<and> P T \<and> (\<exists>j < n. T ! j \<noteq> side_mid))"
      by blast
    then show ?thesis by (simp add: case_prod_unfold np)
  qed
  have sp: "(if P (replicate n side_mid) then 1 else 0)
      + (if \<exists>T. length T = n \<and> P T \<and> (\<exists>j < n. T ! j \<noteq> side_mid) then 1 else 0)
      = (if \<exists>T. length T = n \<and> P T then (1::nat) else 0)"
  proof (cases "P (replicate n side_mid)")
    case True
    have "\<not> (\<exists>T. length T = n \<and> P T \<and> (\<exists>j < n. T ! j \<noteq> side_mid))"
    proof
      assume "\<exists>T. length T = n \<and> P T \<and> (\<exists>j < n. T ! j \<noteq> side_mid)"
      then obtain T j where T: "length T = n" "P T" "j < n" "T ! j \<noteq> side_mid" by blast
      from PU [OF T(1) _ T(2) True] have "T = replicate n side_mid" by simp
      with T(3,4) show False by simp
    qed
    moreover from True have "\<exists>T. length T = n \<and> P T"
      by (intro exI [of _ "replicate n side_mid"]) simp
    ultimately show ?thesis using True by simp
  next
    case False
    have "(\<exists>T. length T = n \<and> P T \<and> (\<exists>j < n. T ! j \<noteq> side_mid))
        \<longleftrightarrow> (\<exists>T. length T = n \<and> P T)"
    proof
      assume "\<exists>T. length T = n \<and> P T"
      then obtain T where T: "length T = n" "P T" by blast
      have "\<exists>j < n. T ! j \<noteq> side_mid"
      proof (rule ccontr)
        assume "\<not> (\<exists>j < n. T ! j \<noteq> side_mid)"
        with T(1) have "T = replicate n side_mid" by (intro nth_equalityI) simp_all
        with T(2) False show False by simp
      qed
      with T show "\<exists>T. length T = n \<and> P T \<and> (\<exists>j < n. T ! j \<noteq> side_mid)" by blast
    qed blast
    with False show ?thesis by simp
  qed
  show ?thesis unfolding ps pm ex sm sp ..
qed

subsection \<open>No boundary without vectors\<close>

lemma prod_list_unit:
  fixes xs :: "int list"
  assumes "\<forall>x \<in> set xs. 0 < x" "prod_list xs = 1"
  shows "\<forall>x \<in> set xs. x = 1"
  using assms by (induction xs) (auto simp: zmult_eq_1_iff)

lemma unit_no_flags:
  assumes d: "dims_ok (dims ctx)" and j: "j < nddims (dims ctx)"
    and c: "CPTS (dims ctx) = 1"
  shows "\<not> any_flag (dim_final ctx sb j :: 'a::len word dim_vars)"
proof -
  from d j have jc: "j < length (cluster_pts (dims ctx))"
    and pos: "\<forall>x \<in> set (cluster_pts (dims ctx)). 0 < x"
    by (auto simp: dims_ok_def nddims_def in_set_conv_nth)
  from prod_list_unit [OF pos] c jc have C: "cluster_pts (dims ctx) ! j = 1"
    by (simp add: CPTS_def)
  from dims_okD [OF d j] C have V: "fold_pts (dims ctx) ! j = 1"
    by (auto simp: zdvd1_eq)
  define v :: "'a word dim_vars" where "v = dim_ranges ctx sb j"
  define w :: "'a word dim_vars" where "w = dim_masked ctx sb j"
  have "\<not> do_left_fvec v" "\<not> do_right_fvec v" "\<not> do_left_pvec v" "\<not> do_right_pvec v"
    by (simp_all add: v_def dim_ranges_def Let_def C V round_up_flr_def round_down_flr_def
        idiv_flr_def idx_wrap_idem)
  then show ?thesis
    unfolding any_flag_def dim_final_fields [OF refl w_def] dim_masked_fields [OF w_def v_def]
    by simp
qed


subsection \<open>The calls of a nano-block\<close>

lemma nano_vars_init_flags:
  "do_clusters (nano_vars_init d sb :: 'a::len word nano_vars)"
  "\<not> do_outside_clusters (nano_vars_init d sb :: 'a::len word nano_vars)"
  by (simp_all add: nano_vars_init_def Let_def)

lemma dispatch_calls:
  fixes st :: "'a::len word nano_vars"
  assumes ok: "nano_ok ctx micro" and sb: "sb = nano_init (dims ctx) settings sfi micro"
    and st: "st = loop_fold ctx sb (nddims (dims ctx)) (nano_vars_init (dims ctx) sb)"
    and al: "aligned (dims ctx) (nano_block_tile_sizes settings)"
      "aligned (dims ctx) (align micro)"
      "aligned (dims ctx) (sfi (pico_block_sizes settings) (create_inner micro))"
  shows "\<exists>nfc nfv nov.
     normalize_indices_scan (dims ctx) (sb_fcidxs st) = Inr nfc
     \<and> normalize_indices_scan (dims ctx) (sb_fvidxs st) = Inr nfv
     \<and> normalize_indices_scan (dims ctx) (sb_ovidxs st) = Inr nov
     \<and> dispatch ctx ot it st =
         Inr ((if do_clusters st then [calc_clusters ot it (thread_limit ctx) nfc] else [])
              @ (if do_outside_clusters st
                 then boundary_calls (dims ctx) ot it (thread_limit ctx) st nfc nfv nov
                 else []))"
proof -
  from ok have d: "dims_ok (dims ctx)" by (simp add: nano_ok_def)
  note fa = final_aligned [OF ok sb st]
  note fi = final_inputs [OF sb st]
  have "\<exists>r. normalize_indices_scan (dims ctx) (sb_fcidxs st) = Inr r"
    unfolding normalize_indices_scan_iff using fa fi al by simp
  then obtain nfc where nfc: "normalize_indices_scan (dims ctx) (sb_fcidxs st) = Inr nfc" ..
  have "\<exists>r. normalize_indices_scan (dims ctx) (sb_fvidxs st) = Inr r"
    unfolding normalize_indices_scan_iff using fa fi al by simp
  then obtain nfv where nfv: "normalize_indices_scan (dims ctx) (sb_fvidxs st) = Inr nfv" ..
  have "\<exists>r. normalize_indices_scan (dims ctx) (sb_ovidxs st) = Inr r"
    unfolding normalize_indices_scan_iff using fa fi al by simp
  then obtain nov where nov: "normalize_indices_scan (dims ctx) (sb_ovidxs st) = Inr nov" ..
  have co: "CPTS (dims ctx) \<noteq> 1" if "do_outside_clusters st"
  proof
    assume c: "CPTS (dims ctx) = 1"
    from that obtain j where j: "j < nddims (dims ctx)"
      and a: "any_flag (dim_final ctx sb j :: 'a word dim_vars)"
      unfolding st lf_do_outside_clusters by (auto simp: nano_vars_init_flags)
    from unit_no_flags [OF d j c] a show False by blast
  qed
  have "dispatch ctx ot it st =
         Inr ((if do_clusters st then [calc_clusters ot it (thread_limit ctx) nfc] else [])
              @ (if do_outside_clusters st
                 then boundary_calls (dims ctx) ot it (thread_limit ctx) st nfc nfv nov
                 else []))"
    using co by (simp add: dispatch_def Let_def nfc nfv nov)
  with nfc nfv nov show ?thesis by blast
qed

text \<open>Exactly one of the calls writes a point of the element range, and none writes
  a point outside.\<close>

lemma partition_count:
  fixes st :: "'a::len word nano_vars"
  assumes ok: "nano_ok ctx micro" and sb: "sb = nano_init (dims ctx) settings sfi micro"
    and st: "st = loop_fold ctx sb (nddims (dims ctx)) (nano_vars_init (dims ctx) sb)"
    and N: "nat (prod_list (fold_pts (dims ctx))) < LENGTH('a)"
    and nd: "nddims (dims ctx) < LENGTH('a)"
    and nfc: "normalize_indices_scan (dims ctx) (sb_fcidxs st) = Inr nfc"
    and nfv: "normalize_indices_scan (dims ctx) (sb_fvidxs st) = Inr nfv"
    and nov: "normalize_indices_scan (dims ctx) (sb_ovidxs st) = Inr nov"
  shows "num_writes (dims ctx)
       ((if do_clusters st then [calc_clusters ot it lim nfc] else [])
        @ (if do_outside_clusters st
           then boundary_calls (dims ctx) ot it lim st nfc nfv nov else [])) p
     = (if \<forall>j < nddims (dims ctx).
             ebgn (dim_final ctx sb j :: 'a word dim_vars) \<le> p ! j
             \<and> p ! j < eend (dim_final ctx sb j :: 'a word dim_vars)
        then 1 else 0)"
proof -
  define n where "n = nddims (dims ctx)"
  define f :: "nat \<Rightarrow> 'a word dim_vars" where "f j = dim_final ctx sb j" for j
  define Rf where "Rf j s = fv_in s (f j) (p ! j)" for j s
  define Rp where "Rp j s = pv_in s (f j) (p ! j)" for j s
  have dk: "dim_ok ctx sb j" if "j < n" for j
    using nano_ok_dim_ok [OF ok] that unfolding sb n_def by blast
  note fc = fv_in_cases [OF dk f_def]
  note pc = pv_in_cases [OF dk f_def]
  have nl: "n < LENGTH('a)" "nddims (dims ctx) \<le> LENGTH('a)" using nd by (simp_all add: n_def)
  have cf: "(if \<forall>j < n. Rf j side_mid then 1 else 0)
       + sum_list (map (\<lambda>(c, l). if \<forall>j < n. Rf j (side_of c l j) then 1 else 0)
           (part_list n :: ('a word \<times> 'a word) list))
       = (if \<forall>j < n. \<exists>s. Rf j s then (1::nat) else 0)"
    by (rule count_sides [OF nl(1)]) (use fc(2) in \<open>auto simp: Rf_def\<close>)
  have cp: "(if \<forall>j < n. Rp j side_mid then 1 else 0)
       + sum_list (map (\<lambda>(c, l). if \<forall>j < n. Rp j (side_of c l j) then 1 else 0)
           (part_list n :: ('a word \<times> 'a word) list))
       = (if \<forall>j < n. \<exists>s. Rp j s then (1::nat) else 0)"
    by (rule count_sides [OF nl(1)]) (use pc(2) in \<open>auto simp: Rp_def\<close>)
  have fm: "(\<forall>j < n. \<exists>s. Rf j s) \<longleftrightarrow> (\<forall>j < n. Rp j side_mid)"
    using fc(1) by (simp add: Rf_def Rp_def pv_in_def)
  have pe: "(\<forall>j < n. \<exists>s. Rp j s) \<longleftrightarrow> (\<forall>j < n. ebgn (f j) \<le> p ! j \<and> p ! j < eend (f j))"
    using pc(1) by (simp add: Rp_def)
  have cl: "num_writes (dims ctx)
      (if do_clusters st then [calc_clusters ot it lim nfc] else []) p
      = (if \<forall>j < n. Rf j side_mid then 1 else 0)"
  proof -
    have dc: "do_clusters st \<longleftrightarrow> (\<forall>j < n. dim_clusters ctx sb j)"
      unfolding st lf_do_clusters n_def by (simp add: nano_vars_init_flags)
    have cw: "in_norm_range (dims ctx) nfc p \<longleftrightarrow> (\<forall>j < n. Rf j side_mid)"
      unfolding cluster_writes [OF ok sb st nfc] Rf_def f_def n_def ..
    have "(\<forall>j < n. Rf j side_mid) \<Longrightarrow> do_clusters st"
      unfolding dc using fc(3) by (auto simp: Rf_def)
    then show ?thesis using cw by (auto simp: num_writes_def)
  qed
  have bd: "num_writes (dims ctx) (boundary_calls (dims ctx) ot it lim st nfc nfv nov) p
      = sum_list (map (\<lambda>(c, l). if \<forall>j < n. Rf j (side_of c l j) then 1 else 0)
           (part_list n :: ('a word \<times> 'a word) list))
        + sum_list (map (\<lambda>(c, l). if \<forall>j < n. Rp j (side_of c l j) then 1 else 0)
           (part_list n :: ('a word \<times> 'a word) list))"
  proof -
    have "num_writes (dims ctx) (boundary_calls (dims ctx) ot it lim st nfc nfv nov) p
        = sum_list (map (\<lambda>x. (case x of (c, l) \<Rightarrow>
              if \<forall>j < n. Rf j (side_of c l j) then 1 else 0)
            + (case x of (c, l) \<Rightarrow> if \<forall>j < n. Rp j (side_of c l j) then 1 else 0))
           (part_list n :: ('a word \<times> 'a word) list))"
      unfolding boundary_calls_parts num_writes_concat_map n_def [symmetric]
      by (rule arg_cong [where f = sum_list], rule map_cong [OF refl])
        (auto simp: part_calls_writes [OF ok sb st N nl(2) nfc nfv nov] Rf_def Rp_def f_def
          n_def)
    then show ?thesis by (simp only: sum_list_addf)
  qed
  show ?thesis
  proof (cases "do_outside_clusters st")
    case True
    then have "num_writes (dims ctx)
       ((if do_clusters st then [calc_clusters ot it lim nfc] else [])
        @ (if do_outside_clusters st
           then boundary_calls (dims ctx) ot it lim st nfc nfv nov else [])) p
      = ((if \<forall>j < n. Rf j side_mid then 1 else 0)
         + sum_list (map (\<lambda>(c, l). if \<forall>j < n. Rf j (side_of c l j) then 1 else 0)
           (part_list n :: ('a word \<times> 'a word) list)))
        + sum_list (map (\<lambda>(c, l). if \<forall>j < n. Rp j (side_of c l j) then 1 else 0)
           (part_list n :: ('a word \<times> 'a word) list))"
      by (simp only: num_writes_append cl bd if_True add.assoc)
    also have "\<dots> = (if \<forall>j < n. \<exists>s. Rp j s then 1 else 0)"
      unfolding cf fm by (rule cp)
    finally show ?thesis unfolding pe unfolding f_def n_def .
  next
    case False
    have nf: "\<not> any_flag (f j)" if "j < n" for j
      using False that unfolding st lf_do_outside_clusters f_def n_def by blast
    have mf: "Rf j s \<Longrightarrow> s = side_mid" if "j < n" for j s
      using nf [OF that] by (cases s) (auto simp: Rf_def fv_in_def any_flag_def)
    have mp: "Rp j s \<Longrightarrow> s = side_mid" if "j < n" for j s
      using nf [OF that] by (cases s) (auto simp: Rp_def pv_in_def any_flag_def)
    have e1: "(\<forall>j < n. Rf j side_mid) \<longleftrightarrow> (\<forall>j < n. \<exists>s. Rf j s)" using mf by blast
    have e2: "(\<forall>j < n. Rp j side_mid) \<longleftrightarrow> (\<forall>j < n. \<exists>s. Rp j s)" using mp by blast
    from False have "num_writes (dims ctx)
       ((if do_clusters st then [calc_clusters ot it lim nfc] else [])
        @ (if do_outside_clusters st
           then boundary_calls (dims ctx) ot it lim st nfc nfv nov else [])) p
      = (if \<forall>j < n. Rf j side_mid then 1 else 0)"
      by (simp add: cl)
    also have "\<dots> = (if \<forall>j < n. \<exists>s. Rp j s then 1 else 0)"
      unfolding e1 fm e2 ..
    finally show ?thesis unfolding pe unfolding f_def n_def .
  qed
qed


subsection \<open>The partition\<close>

text \<open>
  C1 (as stated). For every nano-block and every fold and cluster configuration, every
  point of the element range is written by exactly one call and no point outside it is
  written. This fails for inputs outside the limits of the code. With as many lanes in
  the fold as a mask has bits, the sign bit of the mask is smeared by the right shift:
  for fold length 64 and the nano-block \<open>[0, 63)\<close> the one call made is a
  \<open>calc_vectors\<close> with all 64 lanes enabled, which writes the point 63. With a tile
  size that is not a multiple of the fold length (fold length 4, tile size 1), and with
  a nano-block next to the upper limit of \<open>idx_t\<close> (\<open>[2^63 - 7, 2^63 - 1)\<close>), an
  assertion fails and no call is made.
\<close>

theorem partition_counterexample:
  "(calc_nano_block_opt
      \<lparr>dims = \<lparr>fold_pts = [64], cluster_pts = [64], first_inner = True\<rparr>,
       rank_domain_offsets = [0], check_step_conds = True, thread_limit = 1\<rparr>
      (curry fst) 0 0
      \<lparr>pico_block_sizes = [64], nano_block_tile_sizes = [64], force_scalar = False\<rparr>
      \<lparr>begin_v = [0], end_v = [128], start = [0], stop = [63], stride = [64],
       tile_size = [64], align = [64], align_ofs = [0]\<rparr> :: error + 64 word call list)
    = Inr [calc_vectors 0 0 1
        \<lparr>begin_v = [0], end_v = [1], start = [0], stop = [0], stride = [1],
         tile_size = [1], align = [1], align_ofs = [0]\<rparr> (- 1)]
   \<and> num_writes \<lparr>fold_pts = [64], cluster_pts = [64], first_inner = True\<rparr>
        [calc_vectors 0 0 1
          \<lparr>begin_v = [0], end_v = [1], start = [0], stop = [0], stride = [1],
           tile_size = [1], align = [1], align_ofs = [0]\<rparr> (- 1 :: 64 word)] [63] = 1
   \<and> \<not> in_range [0] [63] [63]
   \<and> (calc_nano_block_opt
      \<lparr>dims = \<lparr>fold_pts = [4], cluster_pts = [8], first_inner = True\<rparr>,
       rank_domain_offsets = [0], check_step_conds = True, thread_limit = 1\<rparr>
      (curry fst) 0 0
      \<lparr>pico_block_sizes = [8], nano_block_tile_sizes = [1], force_scalar = False\<rparr>
      \<lparr>begin_v = [0], end_v = [32], start = [8], stop = [16], stride = [16],
       tile_size = [16], align = [4], align_ofs = [0]\<rparr> :: error + 64 word call list)
    = Inl assert_fail
   \<and> (calc_nano_block_opt
      \<lparr>dims = \<lparr>fold_pts = [4], cluster_pts = [8], first_inner = True\<rparr>,
       rank_domain_offsets = [0], check_step_conds = True, thread_limit = 1\<rparr>
      (curry fst) 0 0
      \<lparr>pico_block_sizes = [8], nano_block_tile_sizes = [8], force_scalar = False\<rparr>
      \<lparr>begin_v = [0], end_v = [0],
       start = [9223372036854775801], stop = [9223372036854775807], stride = [8],
       tile_size = [8], align = [4], align_ofs = [0]\<rparr> :: error + 64 word call list)
    = Inl assert_fail"
  by code_simp

text \<open>
  C1 (amended). For a well-formed nano-block (one entry per domain dim in every list
  read, not reversed in any dim, at least a cluster length from both limits of \<open>idx_t\<close>
  in rank-relative coordinates), with fewer lanes in the fold and fewer domain dims than
  bits in a mask (with as many dims, the shift \<open>1 << k\<close> that counts the left-right
  sequences is undefined), and with tile sizes, alignments and strides that are multiples of the
  fold lengths, so that the assertion of the normalization holds, \<open>calc_nano_block_opt\<close>
  returns its calls, and every point with one coordinate per domain dim is written by
  exactly one of them if it lies in the element range \<open>[eidxs.begin, eidxs.end)\<close> =
  \<open>[start - rank offset, stop - rank offset)\<close> and by none otherwise: the regions of the
  cluster call, of the full-vector calls and of the masked partial-vector calls are
  pairwise disjoint and their union is the nano-block.
\<close>

theorem calc_nano_block_opt_partition:
  assumes ok: "nano_ok ctx micro"
    and N: "nat (prod_list (fold_pts (dims ctx))) < LENGTH('a::len)"
    and nd: "nddims (dims ctx) < LENGTH('a)"
    and al: "aligned (dims ctx) (nano_block_tile_sizes settings)"
      "aligned (dims ctx) (align micro)"
      "aligned (dims ctx) (sfi (pico_block_sizes settings) (create_inner micro))"
  shows "\<exists>(st :: 'a word nano_vars) (calls :: 'a word call list).
     nano_vars_of ctx settings sfi micro = Inr st
     \<and> calc_nano_block_opt ctx sfi ot it settings micro = Inr calls
     \<and> begin_v (sb_eidxs st)
         = map (\<lambda>j. start micro ! j - rank_domain_offsets ctx ! j) [0 ..< nddims (dims ctx)]
     \<and> end_v (sb_eidxs st)
         = map (\<lambda>j. stop micro ! j - rank_domain_offsets ctx ! j) [0 ..< nddims (dims ctx)]
     \<and> (\<forall>p. length p = nddims (dims ctx) \<longrightarrow>
          num_writes (dims ctx) calls p
            = (if in_range (begin_v (sb_eidxs st)) (end_v (sb_eidxs st)) p then 1 else 0))"
proof -
  define sb where "sb = nano_init (dims ctx) settings sfi micro"
  define st :: "'a word nano_vars"
    where "st = loop_fold ctx sb (nddims (dims ctx)) (nano_vars_init (dims ctx) sb)"
  have nv: "nano_vars_of ctx settings sfi micro = Inr st"
    unfolding st_def sb_def by (rule nano_vars_of_eq [OF ok less_imp_le [OF N]])
  from dispatch_calls [OF ok sb_def st_def al, of ot it]
  obtain nfc nfv nov where
    nfc: "normalize_indices_scan (dims ctx) (sb_fcidxs st) = Inr nfc"
    and nfv: "normalize_indices_scan (dims ctx) (sb_fvidxs st) = Inr nfv"
    and nov: "normalize_indices_scan (dims ctx) (sb_ovidxs st) = Inr nov"
    and dp: "dispatch ctx ot it st =
         Inr ((if do_clusters st then [calc_clusters ot it (thread_limit ctx) nfc] else [])
              @ (if do_outside_clusters st
                 then boundary_calls (dims ctx) ot it (thread_limit ctx) st nfc nfv nov
                 else []))"
    by blast
  define calls :: "'a word call list" where "calls =
      (if do_clusters st then [calc_clusters ot it (thread_limit ctx) nfc] else [])
      @ (if do_outside_clusters st
         then boundary_calls (dims ctx) ot it (thread_limit ctx) st nfc nfv nov else [])"
  have cn: "calc_nano_block_opt ctx sfi ot it settings micro = Inr calls"
    by (simp add: calc_nano_block_opt_def nv dp calls_def)
  note fl = final_lengths [OF ok sb_def st_def]
  from ok have de: "dims_ok (dims ctx)" by (simp add: nano_ok_def)
  have eb: "ebgn (dim_final ctx sb j :: 'a word dim_vars)
        = start micro ! j - rank_domain_offsets ctx ! j"
    and ee: "eend (dim_final ctx sb j :: 'a word dim_vars)
        = stop micro ! j - rank_domain_offsets ctx ! j" if j: "j < nddims (dims ctx)" for j
  proof -
    note r = dim_ranges_ends [OF dims_okD(1) [OF de j] refl refl
        nano_ok_room [OF ok j, of settings sfi], where 'a = 'a]
    show "ebgn (dim_final ctx sb j :: 'a word dim_vars)
        = start micro ! j - rank_domain_offsets ctx ! j"
      "eend (dim_final ctx sb j :: 'a word dim_vars)
        = stop micro ! j - rank_domain_offsets ctx ! j"
      unfolding dim_final_fields [OF refl refl] dim_masked_fields [OF refl refl] sb_def
      using r by (simp_all add: nano_init_fields)
  qed
  have b: "begin_v (sb_eidxs st)
         = map (\<lambda>j. start micro ! j - rank_domain_offsets ctx ! j) [0 ..< nddims (dims ctx)]"
    by (rule nth_equalityI)
      (simp_all add: fl final_ranges(1) [OF ok sb_def st_def] eb)
  have e: "end_v (sb_eidxs st)
         = map (\<lambda>j. stop micro ! j - rank_domain_offsets ctx ! j) [0 ..< nddims (dims ctx)]"
    by (rule nth_equalityI)
      (simp_all add: fl final_ranges(2) [OF ok sb_def st_def] ee)
  have w: "num_writes (dims ctx) calls p
            = (if in_range (begin_v (sb_eidxs st)) (end_v (sb_eidxs st)) p then 1 else 0)"
    if p: "length p = nddims (dims ctx)" for p
  proof -
    have "in_range (begin_v (sb_eidxs st)) (end_v (sb_eidxs st)) p \<longleftrightarrow>
        (\<forall>j < nddims (dims ctx).
             ebgn (dim_final ctx sb j :: 'a word dim_vars) \<le> p ! j
             \<and> p ! j < eend (dim_final ctx sb j :: 'a word dim_vars))"
      unfolding in_range_def b e using p by (simp add: eb ee)
    then show ?thesis
      unfolding calls_def partition_count [OF ok sb_def st_def N nd nfc nfv nov] by simp
  qed
  from nv cn b e w show ?thesis by blast
qed

theorem calc_nano_block_opt_partition_witness:
  "\<exists>calls :: 64 word call list.
     calc_nano_block_opt
       \<lparr>dims = \<lparr>fold_pts = [2, 2], cluster_pts = [2, 4], first_inner = True\<rparr>,
        rank_domain_offsets = [0, 0], check_step_conds = True, thread_limit = 1\<rparr>
       (curry fst) 0 0
       \<lparr>pico_block_sizes = [2, 4], nano_block_tile_sizes = [2, 4], force_scalar = False\<rparr>
       \<lparr>begin_v = [0, 0], end_v = [8, 8], start = [1, 2], stop = [4, 8], stride = [8, 8],
        tile_size = [8, 8], align = [2, 2], align_ofs = [0, 0]\<rparr> = Inr calls
     \<and> num_writes \<lparr>fold_pts = [2, 2], cluster_pts = [2, 4], first_inner = True\<rparr>
          calls [1, 2] = 1
     \<and> num_writes \<lparr>fold_pts = [2, 2], cluster_pts = [2, 4], first_inner = True\<rparr>
          calls [3, 7] = 1
     \<and> num_writes \<lparr>fold_pts = [2, 2], cluster_pts = [2, 4], first_inner = True\<rparr>
          calls [0, 2] = 0"
proof -
  let ?d = "\<lparr>fold_pts = [2, 2], cluster_pts = [2, 4], first_inner = True\<rparr>"
  let ?ctx = "\<lparr>dims = ?d, rank_domain_offsets = [0, 0], check_step_conds = True,
      thread_limit = 1\<rparr>"
  let ?set = "\<lparr>pico_block_sizes = [2, 4], nano_block_tile_sizes = [2, 4],
      force_scalar = False\<rparr>"
  let ?mic = "\<lparr>begin_v = [0, 0], end_v = [8, 8], start = [1, 2], stop = [4, 8],
      stride = [8, 8], tile_size = [8, 8], align = [2, 2], align_ofs = [0, 0]\<rparr>"
  have h1: "nano_ok ?ctx ?mic"
    by (simp add: nano_ok_def dims_ok_def nddims_def less_Suc_eq idx_fits_def)
  have h2: "nat (prod_list (fold_pts (dims ?ctx))) < LENGTH(64)" by simp
  have h3: "nddims (dims ?ctx) < LENGTH(64)" by (simp add: nddims_def)
  have h4: "aligned (dims ?ctx) (nano_block_tile_sizes ?set)"
    "aligned (dims ?ctx) (align ?mic)"
    "aligned (dims ?ctx) (curry fst (pico_block_sizes ?set) (create_inner ?mic))"
    by (simp_all add: aligned_def nddims_def less_Suc_eq)
  have n2: "[0 ..< nddims (dims ?ctx)] = [0, 1]" by (simp add: nddims_def upt_rec)
  from calc_nano_block_opt_partition [where 'a = 64 and ctx = ?ctx and micro = ?mic
      and settings = ?set and sfi = "curry fst" and ot = 0 and it = 0, OF h1 h2 h3 h4]
  obtain st :: "64 word nano_vars" and calls :: "64 word call list" where
    c: "calc_nano_block_opt ?ctx (curry fst) 0 0 ?set ?mic = Inr calls"
    and b0: "begin_v (sb_eidxs st)
         = map (\<lambda>j. start ?mic ! j - rank_domain_offsets ?ctx ! j) [0 ..< nddims (dims ?ctx)]"
    and e0: "end_v (sb_eidxs st)
         = map (\<lambda>j. stop ?mic ! j - rank_domain_offsets ?ctx ! j) [0 ..< nddims (dims ?ctx)]"
    and w0: "\<forall>p. length p = nddims (dims ?ctx) \<longrightarrow>
          num_writes (dims ?ctx) calls p
            = (if in_range (begin_v (sb_eidxs st)) (end_v (sb_eidxs st)) p then 1 else 0)"
    by blast
  from b0 have b: "begin_v (sb_eidxs st) = [1, 2]" unfolding n2 by simp
  from e0 have e: "end_v (sb_eidxs st) = [4, 8]" unfolding n2 by simp
  have w: "num_writes ?d calls p
            = (if in_range (begin_v (sb_eidxs st)) (end_v (sb_eidxs st)) p then 1 else 0)"
    if "length p = 2" for p
    using w0 that by (simp add: nddims_def)
  have "in_range [1, 2] [4, 8] [1, 2]" "in_range [1, 2] [4, 8] [3, 7]"
    "\<not> in_range [1, 2] [4, 8] [0, 2]"
    by (simp_all add: in_range_def less_Suc_eq)
  with c w [of "[1, 2]"] w [of "[3, 7]"] w [of "[0, 2]"] show ?thesis
    unfolding b e by simp
qed

section \<open>The boundaries of a dim\<close>

text \<open>
  C2 (as stated). For every domain dim, with \<open>ebgn\<close> and \<open>eend\<close> the nano-block begin and
  end minus \<open>rank_domain_offsets[j]\<close>, \<open>fcbgn\<close> is \<open>ebgn\<close> rounded up to a multiple of
  \<open>cluster_pts[j]\<close> and \<open>ovend\<close> is \<open>eend\<close> rounded up to a multiple of \<open>fold_pts[j]\<close>.
  The coordinates are \<open>idx_t\<close> values, and rounding up adds the multiple less one before
  dividing: for fold length 4, cluster length 8 and the nano-block
  \<open>[2^63 - 7, 2^63 - 1)\<close> the sum wraps around, \<open>fcbgn\<close> and \<open>ovend\<close> are \<open>- 2^63\<close>, below
  \<open>ebgn\<close> and \<open>eend\<close>, and the assertion \<open>ovend >= ovbgn\<close> of the loop fails.
\<close>

theorem dim_ranges_wrap_counterexample:
  "(dim_ranges
      \<lparr>dims = \<lparr>fold_pts = [4], cluster_pts = [8], first_inner = True\<rparr>,
       rank_domain_offsets = [0], check_step_conds = True, thread_limit = 1\<rparr>
      \<lparr>begin_v = [9223372036854775801], end_v = [9223372036854775807],
       start = [9223372036854775801], stop = [9223372036854775807], stride = [8],
       tile_size = [8], align = [4], align_ofs = [0]\<rparr> 0 :: 64 word dim_vars)
    = \<lparr>ebgn = 9223372036854775801, eend = 9223372036854775807,
       fcbgn = - 9223372036854775808, fcend = 9223372036854775800,
       fvbgn = 9223372036854775804, fvend = 9223372036854775804,
       ovbgn = 9223372036854775800, ovend = - 9223372036854775808,
       do_left_fvec = False, do_right_fvec = True, do_left_pvec = True, do_right_pvec = True,
       pmask = 0, rmask = 0\<rparr>
   \<and> (nano_vars_of
      \<lparr>dims = \<lparr>fold_pts = [4], cluster_pts = [8], first_inner = True\<rparr>,
       rank_domain_offsets = [0], check_step_conds = True, thread_limit = 1\<rparr>
      \<lparr>pico_block_sizes = [8], nano_block_tile_sizes = [8], force_scalar = False\<rparr>
      (curry fst)
      \<lparr>begin_v = [0], end_v = [0],
       start = [9223372036854775801], stop = [9223372036854775807], stride = [8],
       tile_size = [8], align = [4], align_ofs = [0]\<rparr> :: error + 64 word nano_vars)
    = Inl assert_fail"
  by code_simp

text \<open>
  C2 (amended). In \<open>calc_nano_block_opt\<close>, for every domain dim \<open>j\<close> of a well-formed
  nano-block (one entry per domain dim in every list read, not reversed in any dim, at
  least a cluster length from both limits of \<open>idx_t\<close> in rank-relative coordinates; at
  most as many lanes in the fold as bits in a mask, beyond which the shift that builds
  the masks is undefined), with \<open>ebgn\<close> and \<open>eend\<close> the nano-block begin and end minus
  \<open>rank_domain_offsets[j]\<close>, the computed boundaries are: \<open>fcbgn\<close> the least multiple of
  \<open>cluster_pts[j]\<close> that is at least \<open>ebgn\<close>, \<open>fcend\<close> the greatest multiple of
  \<open>cluster_pts[j]\<close> that is at most \<open>eend\<close>, \<open>fvbgn\<close> and \<open>fvend\<close> the same for
  \<open>fold_pts[j]\<close>, \<open>ovbgn\<close> the greatest multiple of \<open>fold_pts[j]\<close> at most \<open>ebgn\<close> and
  \<open>ovend\<close> the least multiple of \<open>fold_pts[j]\<close> at least \<open>eend\<close>; \<open>ebgn\<close> and \<open>eend\<close> may
  be negative. The loop runs through and stores these boundaries in \<open>sb_eidxs\<close>,
  \<open>sb_fvidxs\<close>, \<open>sb_ovidxs\<close> and \<open>sb_fcidxs\<close>, the last with both ends replaced by
  \<open>fvend\<close> in a dim without a full cluster whose peel and remainder do not overlap.
\<close>

theorem nano_ranges_rounding:
  fixes v :: "'a::len word dim_vars"
  assumes ok: "nano_ok ctx micro"
    and N: "nat (prod_list (fold_pts (dims ctx))) \<le> LENGTH('a)"
    and sb: "sb = nano_init (dims ctx) settings sfi micro"
    and j: "j < nddims (dims ctx)"
    and V: "V = fold_pts (dims ctx) ! j" and C: "C = cluster_pts (dims ctx) ! j"
    and v: "v = dim_ranges ctx sb j"
  shows "ebgn v = start micro ! j - rank_domain_offsets ctx ! j
       \<and> eend v = stop micro ! j - rank_domain_offsets ctx ! j
       \<and> (C dvd fcbgn v \<and> ebgn v \<le> fcbgn v \<and> fcbgn v < ebgn v + C)
       \<and> (C dvd fcend v \<and> fcend v \<le> eend v \<and> eend v < fcend v + C)
       \<and> (V dvd fvbgn v \<and> ebgn v \<le> fvbgn v \<and> fvbgn v < ebgn v + V)
       \<and> (V dvd fvend v \<and> fvend v \<le> eend v \<and> eend v < fvend v + V)
       \<and> (V dvd ovbgn v \<and> ovbgn v \<le> ebgn v \<and> ebgn v < ovbgn v + V)
       \<and> (V dvd ovend v \<and> eend v \<le> ovend v \<and> ovend v < eend v + V)
       \<and> (\<exists>st :: 'a word nano_vars.
            nano_vars_of ctx settings sfi micro = Inr st
            \<and> begin_v (sb_eidxs st) ! j = ebgn v \<and> end_v (sb_eidxs st) ! j = eend v
            \<and> begin_v (sb_fvidxs st) ! j = fvbgn v \<and> end_v (sb_fvidxs st) ! j = fvend v
            \<and> begin_v (sb_ovidxs st) ! j = ovbgn v \<and> end_v (sb_ovidxs st) ! j = ovend v
            \<and> begin_v (sb_fcidxs st) ! j =
                 (if \<not> (ebgn v < fvbgn v \<and> fvend v < eend v \<and> ovbgn v = fvend v)
                     \<and> fcend v \<le> fcbgn v
                  then fvend v else fcbgn v)
            \<and> end_v (sb_fcidxs st) ! j =
                 (if \<not> (ebgn v < fvbgn v \<and> fvend v < eend v \<and> ovbgn v = fvend v)
                     \<and> fcend v \<le> fcbgn v
                  then fvend v else fcend v))"
proof -
  from ok have d: "dims_ok (dims ctx)" by (simp add: nano_ok_def)
  note D = dims_okD [OF d j]
  note R = nano_ok_room [OF ok j, of settings sfi, folded sb]
  note r = dim_ranges_fold_aux [OF D(1) [folded V] V v R]
  note c = dim_ranges_cluster_aux [OF D(2) [folded C] C v R]
  note fl = dim_ranges_flags [OF v]
  define st :: "'a word nano_vars"
    where "st = loop_fold ctx sb (nddims (dims ctx)) (nano_vars_init (dims ctx) sb)"
  define w :: "'a word dim_vars" where "w = dim_masked ctx sb j"
  have nv: "nano_vars_of ctx settings sfi micro = Inr st"
    unfolding st_def sb by (rule nano_vars_of_eq [OF ok N])
  note fr = final_ranges [OF ok sb st_def j]
  note ff = dim_final_fields [OF refl w_def]
  note mf = dim_masked_fields [OF w_def v]
  have o: "overlap w \<longleftrightarrow> ebgn v < fvbgn v \<and> fvend v < eend v \<and> ovbgn v = fvend v"
    unfolding overlap_def mf fl by auto
  have e: "ebgn v = start micro ! j - rank_domain_offsets ctx ! j"
    "eend v = stop micro ! j - rank_domain_offsets ctx ! j"
    using r(1,2) by (simp_all add: sb nano_init_fields)
  have s: "begin_v (sb_eidxs st) ! j = ebgn v \<and> end_v (sb_eidxs st) ! j = eend v
            \<and> begin_v (sb_fvidxs st) ! j = fvbgn v \<and> end_v (sb_fvidxs st) ! j = fvend v
            \<and> begin_v (sb_ovidxs st) ! j = ovbgn v \<and> end_v (sb_ovidxs st) ! j = ovend v
            \<and> begin_v (sb_fcidxs st) ! j =
                 (if \<not> (ebgn v < fvbgn v \<and> fvend v < eend v \<and> ovbgn v = fvend v)
                     \<and> fcend v \<le> fcbgn v
                  then fvend v else fcbgn v)
            \<and> end_v (sb_fcidxs st) ! j =
                 (if \<not> (ebgn v < fvbgn v \<and> fvend v < eend v \<and> ovbgn v = fvend v)
                     \<and> fcend v \<le> fcbgn v
                  then fvend v else fcend v)"
    unfolding fr ff o [symmetric] mf by simp
  from e r c nv s show ?thesis by blast
qed

theorem nano_ranges_rounding_witness:
  "ebgn (dim_ranges
      \<lparr>dims = \<lparr>fold_pts = [4], cluster_pts = [8], first_inner = True\<rparr>,
       rank_domain_offsets = [10], check_step_conds = True, thread_limit = 1\<rparr>
      (nano_init \<lparr>fold_pts = [4], cluster_pts = [8], first_inner = True\<rparr>
        \<lparr>pico_block_sizes = [8], nano_block_tile_sizes = [8], force_scalar = False\<rparr>
        (curry fst)
        \<lparr>begin_v = [0], end_v = [32], start = [5], stop = [23], stride = [16],
         tile_size = [16], align = [4], align_ofs = [0]\<rparr>) 0 :: 64 word dim_vars) = - 5
   \<and> fcbgn (dim_ranges
      \<lparr>dims = \<lparr>fold_pts = [4], cluster_pts = [8], first_inner = True\<rparr>,
       rank_domain_offsets = [10], check_step_conds = True, thread_limit = 1\<rparr>
      (nano_init \<lparr>fold_pts = [4], cluster_pts = [8], first_inner = True\<rparr>
        \<lparr>pico_block_sizes = [8], nano_block_tile_sizes = [8], force_scalar = False\<rparr>
        (curry fst)
        \<lparr>begin_v = [0], end_v = [32], start = [5], stop = [23], stride = [16],
         tile_size = [16], align = [4], align_ofs = [0]\<rparr>) 0 :: 64 word dim_vars) = 0
   \<and> (\<exists>st :: 64 word nano_vars.
        nano_vars_of
          \<lparr>dims = \<lparr>fold_pts = [4], cluster_pts = [8], first_inner = True\<rparr>,
           rank_domain_offsets = [10], check_step_conds = True, thread_limit = 1\<rparr>
          \<lparr>pico_block_sizes = [8], nano_block_tile_sizes = [8], force_scalar = False\<rparr>
          (curry fst)
          \<lparr>begin_v = [0], end_v = [32], start = [5], stop = [23], stride = [16],
           tile_size = [16], align = [4], align_ofs = [0]\<rparr> = Inr st
        \<and> begin_v (sb_eidxs st) ! 0 = - 5 \<and> begin_v (sb_fcidxs st) ! 0 = 0)"
proof -
  let ?d = "\<lparr>fold_pts = [4], cluster_pts = [8], first_inner = True\<rparr>"
  let ?ctx = "\<lparr>dims = ?d, rank_domain_offsets = [10], check_step_conds = True,
       thread_limit = 1\<rparr>"
  let ?set = "\<lparr>pico_block_sizes = [8], nano_block_tile_sizes = [8], force_scalar = False\<rparr>"
  let ?mic = "\<lparr>begin_v = [0], end_v = [32], start = [5], stop = [23], stride = [16],
         tile_size = [16], align = [4], align_ofs = [0]\<rparr>"
  let ?sb = "nano_init ?d ?set (curry fst) ?mic"
  let ?v = "dim_ranges ?ctx ?sb 0 :: 64 word dim_vars"
  have h1: "nano_ok ?ctx ?mic" by (simp add: nano_ok_def dims_ok_def nddims_def idx_fits_def)
  have h2: "nat (prod_list (fold_pts (dims ?ctx))) \<le> LENGTH(64)" by simp
  have h3: "?sb = nano_init (dims ?ctx) ?set (curry fst) ?mic" by simp
  have h4: "0 < nddims (dims ?ctx)" by (simp add: nddims_def)
  have h5: "4 = fold_pts (dims ?ctx) ! 0" "8 = cluster_pts (dims ?ctx) ! 0" by simp_all
  note t = nano_ranges_rounding [where 'a = 64 and ctx = ?ctx and micro = ?mic
      and settings = ?set and sfi = "curry fst" and sb = ?sb and j = 0 and V = 4 and C = 8
      and v = ?v, OF h1 h2 h3 h4 h5 refl]
  from t have e: "ebgn ?v = - 5" by simp
  from t have "8 dvd fcbgn ?v" "ebgn ?v \<le> fcbgn ?v" "fcbgn ?v < ebgn ?v + 8"
    by blast+
  with e have fc: "fcbgn ?v = 0" by presburger
  from t have "8 dvd fcend ?v" "fcend ?v \<le> eend ?v" "eend ?v < fcend ?v + 8"
    "eend ?v = 13" by simp_all
  then have fe: "fcend ?v = 8" by presburger
  from t obtain st :: "64 word nano_vars" where
    st: "nano_vars_of ?ctx ?set (curry fst) ?mic = Inr st"
      "begin_v (sb_eidxs st) ! 0 = ebgn ?v"
      "begin_v (sb_fcidxs st) ! 0 =
                 (if \<not> (ebgn ?v < fvbgn ?v \<and> fvend ?v < eend ?v \<and> ovbgn ?v = fvend ?v)
                     \<and> fcend ?v \<le> fcbgn ?v
                  then fvend ?v else fcbgn ?v)"
    by blast
  from st(3) fc fe have "begin_v (sb_fcidxs st) ! 0 = 0" by simp
  with st(1,2) e fc show ?thesis by auto
qed

section \<open>The masks of a dim\<close>

text \<open>
  C3 (as stated). For every domain dim with a partial vector, the bit of a lane \<open>p\<close> is
  set in \<open>peel_masks[j]\<close> iff \<open>ovbgn + p[j] \<ge> ebgn\<close> and in \<open>rem_masks[j]\<close> iff
  \<open>fvend + p[j] < eend\<close>. This fails in two ways. When the peel and the remainder fall
  within one vector, the special case replaces the masks before they are stored: for
  fold length 4, cluster length 8 and the nano-block \<open>[1, 3)\<close> the lanes 1, 2, 3 pass the
  peel test and the lanes 0, 1, 2 the rem test, but \<open>peel_masks[0]\<close> is 6 (the lanes 1
  and 2) and \<open>rem_masks[0]\<close> is 0. And when the fold has as many lanes as the mask has
  bits, the high bit is the sign bit, which the right shift of the signed mask keeps: for
  fold length 64 and the nano-block \<open>[0, 63)\<close> the lane 63 fails the rem test, but all 64
  bits of \<open>rem_masks[0]\<close> are set. Besides, next to the upper limit of \<open>idx_t\<close> (the
  nano-block \<open>[2^63 - 7, 2^63 - 1)\<close>, which has a partial vector on both sides) the
  rounding wraps around, an assertion of the loop fails and no mask is stored.
\<close>

theorem peel_rem_masks_counterexample:
  "(nano_vars_of
      \<lparr>dims = \<lparr>fold_pts = [4], cluster_pts = [8], first_inner = True\<rparr>,
       rank_domain_offsets = [0], check_step_conds = True, thread_limit = 1\<rparr>
      \<lparr>pico_block_sizes = [8], nano_block_tile_sizes = [8], force_scalar = False\<rparr>
      (curry fst)
      \<lparr>begin_v = [0], end_v = [32], start = [1], stop = [3], stride = [16],
       tile_size = [16], align = [4], align_ofs = [0]\<rparr> :: error + 64 word nano_vars)
    = Inr \<lparr>sb_eidxs = \<lparr>begin_v = [1], end_v = [3], start = [1], stop = [3], stride = [8],
                       tile_size = [8], align = [4], align_ofs = [0]\<rparr>,
           sb_fcidxs = \<lparr>begin_v = [8], end_v = [0], start = [1], stop = [3], stride = [8],
                       tile_size = [8], align = [4], align_ofs = [0]\<rparr>,
           sb_fvidxs = \<lparr>begin_v = [4], end_v = [0], start = [1], stop = [3], stride = [8],
                       tile_size = [8], align = [4], align_ofs = [0]\<rparr>,
           sb_ovidxs = \<lparr>begin_v = [0], end_v = [4], start = [1], stop = [3], stride = [8],
                       tile_size = [8], align = [4], align_ofs = [0]\<rparr>,
           do_clusters = False, do_outside_clusters = True,
           do_left_fvecs = 0, do_right_fvecs = 0, do_left_pvecs = 1, do_right_pvecs = 0,
           peel_masks = [6], rem_masks = [0]\<rparr>
   \<and> (nano_vars_of
      \<lparr>dims = \<lparr>fold_pts = [64], cluster_pts = [64], first_inner = True\<rparr>,
       rank_domain_offsets = [0], check_step_conds = True, thread_limit = 1\<rparr>
      \<lparr>pico_block_sizes = [64], nano_block_tile_sizes = [64], force_scalar = False\<rparr>
      (curry fst)
      \<lparr>begin_v = [0], end_v = [128], start = [0], stop = [63], stride = [64],
       tile_size = [64], align = [64], align_ofs = [0]\<rparr> :: error + 64 word nano_vars)
    = Inr \<lparr>sb_eidxs = \<lparr>begin_v = [0], end_v = [63], start = [0], stop = [63], stride = [64],
                       tile_size = [64], align = [64], align_ofs = [0]\<rparr>,
           sb_fcidxs = \<lparr>begin_v = [0], end_v = [0], start = [0], stop = [63], stride = [64],
                       tile_size = [64], align = [64], align_ofs = [0]\<rparr>,
           sb_fvidxs = \<lparr>begin_v = [0], end_v = [0], start = [0], stop = [63], stride = [64],
                       tile_size = [64], align = [64], align_ofs = [0]\<rparr>,
           sb_ovidxs = \<lparr>begin_v = [0], end_v = [64], start = [0], stop = [63], stride = [64],
                       tile_size = [64], align = [64], align_ofs = [0]\<rparr>,
           do_clusters = False, do_outside_clusters = True,
           do_left_fvecs = 0, do_right_fvecs = 0, do_left_pvecs = 0, do_right_pvecs = 1,
           peel_masks = [- 1], rem_masks = [- 1]\<rparr>
   \<and> (nano_vars_of
      \<lparr>dims = \<lparr>fold_pts = [4], cluster_pts = [8], first_inner = True\<rparr>,
       rank_domain_offsets = [0], check_step_conds = True, thread_limit = 1\<rparr>
      \<lparr>pico_block_sizes = [8], nano_block_tile_sizes = [8], force_scalar = False\<rparr>
      (curry fst)
      \<lparr>begin_v = [0], end_v = [0],
       start = [9223372036854775801], stop = [9223372036854775807], stride = [8],
       tile_size = [8], align = [4], align_ofs = [0]\<rparr> :: error + 64 word nano_vars)
    = Inl assert_fail"
  by code_simp

text \<open>
  C3 (amended). In \<open>calc_nano_block_opt\<close>, with fewer lanes in the fold than bits in a
  mask, for every domain dim \<open>j\<close> of a well-formed nano-block (one entry per domain dim
  in every list read, not reversed in any dim, at least a cluster length from both limits
  of \<open>idx_t\<close> in rank-relative coordinates) that has a partial vector
  (\<open>ebgn < fvbgn\<close> or \<open>eend > fvend\<close>), the masks are built by visiting every lane \<open>p\<close>
  of the fold in the fold-layout order, shifting both masks right by one bit at each
  lane and then setting the high bit of the peel mask iff \<open>ovbgn + p[j] \<ge> ebgn\<close> and of
  the rem mask iff \<open>fvend + p[j] < eend\<close>: bit \<open>idx\<close> of the peel (rem) mask is set iff
  \<open>idx\<close> is the position of such a lane in the visiting order, and every lane of the
  fold is visited. A dim with no partial vector keeps zero masks. The loop stores the
  masks built in \<open>peel_masks[j]\<close> and \<open>rem_masks[j]\<close>, unless the peel and the
  remainder fall within one vector (\<open>ovbgn = fvend\<close>, with a partial vector on both
  sides): then \<open>peel_masks[j]\<close> is the bitwise AND of the two and \<open>rem_masks[j]\<close> is zero.
\<close>

theorem nano_masks:
  fixes v :: "'a::len word dim_vars"
  assumes ok: "nano_ok ctx micro"
    and N: "nat (prod_list (fold_pts (dims ctx))) < LENGTH('a)"
    and sb: "sb = nano_init (dims ctx) settings sfi micro"
    and j: "j < nddims (dims ctx)"
    and v: "v = dim_ranges ctx sb j"
    and lanes: "lanes = visit_all_points (first_inner (dims ctx)) (fold_pts (dims ctx))"
    and m: "m = build_masks (dims ctx) j v"
  shows "(ebgn v < fvbgn v \<or> fvend v < eend v \<longrightarrow>
            (\<forall>idx. (bit (fst m) idx \<longleftrightarrow>
                       idx < length lanes \<and> ovbgn v + lanes ! idx ! j \<ge> ebgn v)
                  \<and> (bit (snd m) idx \<longleftrightarrow>
                       idx < length lanes \<and> fvend v + lanes ! idx ! j < eend v)))
       \<and> (\<not> (ebgn v < fvbgn v \<or> fvend v < eend v) \<longrightarrow> m = (0, 0))
       \<and> (\<forall>p. length p = length (fold_pts (dims ctx))
                \<and> (\<forall>i < length (fold_pts (dims ctx)). 0 \<le> p ! i \<and> p ! i < fold_pts (dims ctx) ! i)
              \<longrightarrow> p \<in> set lanes)
       \<and> (\<exists>st :: 'a word nano_vars.
            nano_vars_of ctx settings sfi micro = Inr st
            \<and> peel_masks st ! j =
                 (if ebgn v < fvbgn v \<and> fvend v < eend v \<and> ovbgn v = fvend v
                  then fst m AND snd m else fst m)
            \<and> rem_masks st ! j =
                 (if ebgn v < fvbgn v \<and> fvend v < eend v \<and> ovbgn v = fvend v
                  then 0 else snd m))"
proof -
  let ?d = "dims ctx"
  from ok have d: "dims_ok ?d" by (simp add: nano_ok_def)
  note D = dims_okD [OF d j]
  note R = nano_ok_room [OF ok j, of settings sfi, folded sb]
  note fl = dim_ranges_flags [OF v]
  have len: "length lanes = nat (prod_list (fold_pts ?d))"
    by (simp add: lanes visit_all_points_length)
  have nth: "idx < length lanes \<Longrightarrow> lanes ! idx = unlayout (first_inner ?d) (fold_pts ?d) idx"
    for idx by (simp add: lanes visit_all_points_def)
  have fit: "idx_wrap (ovbgn v + lanes ! idx ! j) = ovbgn v + lanes ! idx ! j"
    "idx_wrap (fvend v + lanes ! idx ! j) = fvend v + lanes ! idx ! j"
    if "idx < length lanes" for idx
  proof -
    from j have "j < length (fold_pts ?d)" by (simp add: nddims_def)
    from unlayout_box [OF dims_ok_pos [OF d] this, of "first_inner ?d" idx] nth [OF that]
    have "0 \<le> lanes ! idx ! j" "lanes ! idx ! j < fold_pts ?d ! j" by simp_all
    from mask_sums_fit [OF D(1) refl v R this]
    show "idx_wrap (ovbgn v + lanes ! idx ! j) = ovbgn v + lanes ! idx ! j"
      "idx_wrap (fvend v + lanes ! idx ! j) = fvend v + lanes ! idx ! j" .
  qed
  have c1: "ebgn v < fvbgn v \<or> fvend v < eend v \<longrightarrow>
            (\<forall>idx. (bit (fst m) idx \<longleftrightarrow>
                       idx < length lanes \<and> ovbgn v + lanes ! idx ! j \<ge> ebgn v)
                  \<and> (bit (snd m) idx \<longleftrightarrow>
                       idx < length lanes \<and> fvend v + lanes ! idx ! j < eend v))"
  proof (intro impI allI)
    fix idx
    assume "ebgn v < fvbgn v \<or> fvend v < eend v"
    then have pv: "do_left_pvec v \<or> do_right_pvec v" using fl by simp
    show "(bit (fst m) idx \<longleftrightarrow>
                       idx < length lanes \<and> ovbgn v + lanes ! idx ! j \<ge> ebgn v)
                  \<and> (bit (snd m) idx \<longleftrightarrow>
                       idx < length lanes \<and> fvend v + lanes ! idx ! j < eend v)"
    proof (cases "idx < length lanes")
      case True
      with build_masks_bits [OF N pv, of j idx] nth [OF True] fit [OF True] len
      show ?thesis unfolding m by simp
    next
      case False
      with build_masks_bits [OF N pv, of j idx] len show ?thesis unfolding m by simp
    qed
  qed
  have c2: "\<not> (ebgn v < fvbgn v \<or> fvend v < eend v) \<longrightarrow> m = (0, 0)"
    using fl by (simp add: m build_masks_def)
  have c3: "\<forall>p. length p = length (fold_pts ?d)
                \<and> (\<forall>i < length (fold_pts ?d). 0 \<le> p ! i \<and> p ! i < fold_pts ?d ! i)
              \<longrightarrow> p \<in> set lanes"
  proof (intro allI impI)
    fix p
    assume p: "length p = length (fold_pts ?d)
      \<and> (\<forall>i < length (fold_pts ?d). 0 \<le> p ! i \<and> p ! i < fold_pts ?d ! i)"
    then obtain idx where "idx < nat (prod_list (fold_pts ?d))"
      "unlayout (first_inner ?d) (fold_pts ?d) idx = p"
      using unlayout_surj [of p "fold_pts ?d" "first_inner ?d"] by blast
    then show "p \<in> set lanes"
      by (auto simp: lanes visit_all_points_def)
  qed
  define st :: "'a word nano_vars"
    where "st = loop_fold ctx sb (nddims ?d) (nano_vars_init ?d sb)"
  define w :: "'a word dim_vars" where "w = dim_masked ctx sb j"
  have nv: "nano_vars_of ctx settings sfi micro = Inr st"
    unfolding st_def sb by (rule nano_vars_of_eq [OF ok less_imp_le [OF N]])
  note fr = final_ranges [OF ok sb st_def j]
  note ff = dim_final_fields [OF refl w_def]
  note mf = dim_masked_fields [OF w_def v]
  have o: "overlap w \<longleftrightarrow> ebgn v < fvbgn v \<and> fvend v < eend v \<and> ovbgn v = fvend v"
    unfolding overlap_def mf fl by auto
  have c4: "peel_masks st ! j =
                 (if ebgn v < fvbgn v \<and> fvend v < eend v \<and> ovbgn v = fvend v
                  then fst m AND snd m else fst m)
            \<and> rem_masks st ! j =
                 (if ebgn v < fvbgn v \<and> fvend v < eend v \<and> ovbgn v = fvend v
                  then 0 else snd m)"
    unfolding fr ff o [symmetric] mf m by simp
  from c1 c2 c3 nv c4 show ?thesis by blast
qed

theorem nano_masks_witness:
  "\<exists>st :: 64 word nano_vars.
     nano_vars_of
       \<lparr>dims = \<lparr>fold_pts = [4], cluster_pts = [8], first_inner = True\<rparr>,
        rank_domain_offsets = [0], check_step_conds = True, thread_limit = 1\<rparr>
       \<lparr>pico_block_sizes = [8], nano_block_tile_sizes = [8], force_scalar = False\<rparr>
       (curry fst)
       \<lparr>begin_v = [0], end_v = [32], start = [1], stop = [7], stride = [16],
        tile_size = [16], align = [4], align_ofs = [0]\<rparr> = Inr st
     \<and> bit (peel_masks st ! 0) 1 \<and> \<not> bit (peel_masks st ! 0) 0
     \<and> bit (rem_masks st ! 0) 2 \<and> \<not> bit (rem_masks st ! 0) 3"
proof -
  let ?d = "\<lparr>fold_pts = [4], cluster_pts = [8], first_inner = True\<rparr>"
  let ?ctx = "\<lparr>dims = ?d, rank_domain_offsets = [0], check_step_conds = True,
       thread_limit = 1\<rparr>"
  let ?set = "\<lparr>pico_block_sizes = [8], nano_block_tile_sizes = [8], force_scalar = False\<rparr>"
  let ?mic = "\<lparr>begin_v = [0], end_v = [32], start = [1], stop = [7], stride = [16],
         tile_size = [16], align = [4], align_ofs = [0]\<rparr>"
  let ?sb = "nano_init ?d ?set (curry fst) ?mic"
  let ?v = "dim_ranges ?ctx ?sb 0 :: 64 word dim_vars"
  let ?lanes = "visit_all_points (first_inner ?d) (fold_pts ?d)"
  let ?m = "build_masks ?d 0 ?v"
  have h1: "nano_ok ?ctx ?mic" by (simp add: nano_ok_def dims_ok_def nddims_def idx_fits_def)
  have h2: "nat (prod_list (fold_pts (dims ?ctx))) < LENGTH(64)" by simp
  have h3: "?sb = nano_init (dims ?ctx) ?set (curry fst) ?mic" by simp
  have h4: "0 < nddims (dims ?ctx)" by (simp add: nddims_def)
  have h5: "?lanes = visit_all_points (first_inner (dims ?ctx)) (fold_pts (dims ?ctx))"
    "?m = build_masks (dims ?ctx) 0 ?v" by simp_all
  have val: "?v = \<lparr>ebgn = 1, eend = 7, fcbgn = 8, fcend = 0, fvbgn = 4, fvend = 4,
        ovbgn = 0, ovend = 8, do_left_fvec = True, do_right_fvec = True,
        do_left_pvec = True, do_right_pvec = True, pmask = 0, rmask = 0\<rparr>"
    by (simp add: dim_ranges_def nano_init_def create_inner_def round_up_flr_def
        round_down_flr_def idiv_flr_def idx_wrap_fits idx_fits_def Let_def)
  have l: "?lanes = [[0], [1], [2], [3]]"
    by (simp add: visit_all_points_def unlayout_def upt_rec)
  note t = nano_masks [where 'a = 64 and ctx = ?ctx and micro = ?mic
      and settings = ?set and sfi = "curry fst" and sb = ?sb and j = 0
      and v = ?v and lanes = ?lanes and m = ?m, OF h1 h2 h3 h4 refl h5]
  have pv: "ebgn ?v < fvbgn ?v \<or> fvend ?v < eend ?v" unfolding val by simp
  have no: "\<not> (ebgn ?v < fvbgn ?v \<and> fvend ?v < eend ?v \<and> ovbgn ?v = fvend ?v)"
    unfolding val by simp
  from t pv have b: "\<And>idx. bit (fst ?m) idx \<longleftrightarrow>
      idx < length ?lanes \<and> ovbgn ?v + ?lanes ! idx ! 0 \<ge> ebgn ?v"
    "\<And>idx. bit (snd ?m) idx \<longleftrightarrow>
      idx < length ?lanes \<and> fvend ?v + ?lanes ! idx ! 0 < eend ?v"
    by blast+
  from t no obtain st :: "64 word nano_vars" where
    st: "nano_vars_of ?ctx ?set (curry fst) ?mic = Inr st"
      "peel_masks st ! 0 = fst ?m" "rem_masks st ! 0 = snd ?m"
    by auto
  have "bit (fst ?m) 1" "\<not> bit (fst ?m) 0" "bit (snd ?m) 2" "\<not> bit (snd ?m) 3"
    using b(1) [of 1] b(1) [of 0] b(2) [of 2] b(2) [of 3] unfolding l val by simp_all
  with st show ?thesis by auto
qed

section \<open>The flags of a nano-block\<close>




end
